theory Spec2Isabelle
  imports Main "HOL-Library.Multiset"
begin

section \<open>Regular expressions of the highlight service\<close>

text \<open>
  \<^verbatim>\<open>HighlightService\<close> finds highlights with three JavaScript regular expressions joined
  into one alternation. Their meaning is the backtracking one of the language: a pattern is
  a matcher that takes the current state (the text still to read and the captures made so
  far) and a continuation, and either returns the final state or fails. The patterns are
  kept as syntax trees so that each one can be read against its source text.

  Text is a list of 8-bit characters, that is, a JavaScript string whose code units are all
  below 256; a position is an index into that list.
\<close>

datatype regex =
    Lit char
  | Dot
  | OneOf string
  | NoneOf string
  | Eps
  | Eos
  | Seq regex regex
  | Alt regex regex
  | Rep nat "nat option" bool regex
  | Grp nat regex

text \<open>
  \<open>Rep lo hi greedy r\<close> is the quantifier \<open>r{lo,hi}\<close> (\<open>hi = None\<close>: no upper bound), greedy or
  lazy; \<open>Grp n r\<close> is the \<open>n\<close>-th capturing group; \<open>OneOf\<close> and \<open>NoneOf\<close> are character classes
  given by their members; \<open>Eos\<close> is \<^verbatim>\<open>$\<close>, the end of the text (no expression here is multi-line).
\<close>

record mstate =
  rest :: string
  caps :: "nat \<Rightarrow> string option"

fun groups :: "regex \<Rightarrow> nat list" where
  "groups (Seq a b) = groups a @ groups b"
| "groups (Alt a b) = groups a @ groups b"
| "groups (Rep lo hi g r) = groups r"
| "groups (Grp n r) = n # groups r"
| "groups _ = []"

fun rsize :: "regex \<Rightarrow> nat" where
  "rsize (Seq a b) = Suc (rsize a + rsize b)"
| "rsize (Alt a b) = Suc (rsize a + rsize b)"
| "rsize (Rep lo hi g r) = Suc (rsize r + lo)"
| "rsize (Grp n r) = Suc (rsize r)"
| "rsize _ = 0"

text \<open>
  The characters that \<^verbatim>\<open>.\<close> does not match, and the ones that \<^verbatim>\<open>\s\<close> matches and
  \<^verbatim>\<open>trim\<close> removes, among the 8-bit characters.
\<close>

definition line_terminators :: string where
  "line_terminators = [CHR 0x0A, CHR 0x0D]"

definition white_space :: string where
  "white_space = [CHR 0x09, CHR 0x0A, CHR 0x0B, CHR 0x0C, CHR 0x0D, CHR 0x20, CHR 0xA0]"

definition rx_dec :: "nat option \<Rightarrow> nat option" where
  "rx_dec hi = (case hi of None \<Rightarrow> None | Some n \<Rightarrow> Some (n - 1))"

text \<open>
  The matcher. An alternation tries its right side only when the left one, with all that
  follows it, has failed. A greedy quantifier tries one more iteration before it goes on,
  a lazy one goes on first. A quantifier clears the captures of the groups inside it before
  each iteration, and an iteration that is not required (\<open>lo = 0\<close>) and reads nothing is
  rejected, which is also what makes the recursion end.
\<close>

function matcher :: "regex \<Rightarrow> mstate \<Rightarrow> (mstate \<Rightarrow> mstate option) \<Rightarrow> mstate option" where
  "matcher (Lit a) x c =
     (case rest x of [] \<Rightarrow> None
      | b # bs \<Rightarrow> if b = a then c (x\<lparr>rest := bs\<rparr>) else None)"
| "matcher Dot x c =
     (case rest x of [] \<Rightarrow> None
      | b # bs \<Rightarrow> if b \<in> set line_terminators then None else c (x\<lparr>rest := bs\<rparr>))"
| "matcher (OneOf cs) x c =
     (case rest x of [] \<Rightarrow> None
      | b # bs \<Rightarrow> if b \<in> set cs then c (x\<lparr>rest := bs\<rparr>) else None)"
| "matcher (NoneOf cs) x c =
     (case rest x of [] \<Rightarrow> None
      | b # bs \<Rightarrow> if b \<in> set cs then None else c (x\<lparr>rest := bs\<rparr>))"
| "matcher Eps x c = c x"
| "matcher Eos x c = (if rest x = [] then c x else None)"
| "matcher (Seq r1 r2) x c = matcher r1 x (\<lambda>y. matcher r2 y c)"
| "matcher (Alt r1 r2) x c =
     (case matcher r1 x c of Some z \<Rightarrow> Some z | None \<Rightarrow> matcher r2 x c)"
| "matcher (Grp n r) x c =
     matcher r x
       (\<lambda>y. c (y\<lparr>caps := (caps y)(n \<mapsto> take (length (rest x) - length (rest y)) (rest x))\<rparr>))"
| "matcher (Rep lo hi greedy r) x c =
     (if hi = Some 0 then c x
      else
        let d = (\<lambda>y. if lo = 0 \<and> length (rest x) \<le> length (rest y) then None
                     else matcher (Rep (lo - 1) (rx_dec hi) greedy r) y c);
            xr = x\<lparr>caps := (\<lambda>k. if k \<in> set (groups r) then None else caps x k)\<rparr>
        in if lo \<noteq> 0 then matcher r xr d
           else if \<not> greedy then (case c x of Some z \<Rightarrow> Some z | None \<Rightarrow> matcher r xr d)
           else (case matcher r xr d of Some z \<Rightarrow> Some z | None \<Rightarrow> c x))"
  by pat_completeness auto

termination
  by (relation "inv_image (less_than <*lex*> less_than) (\<lambda>(r, x, c). (rsize r, length (rest x)))")
    auto

text \<open>
  A lower bound on what a pattern reads outside its capturing groups.
\<close>

fun outer_len :: "regex \<Rightarrow> nat" where
  "outer_len (Lit a) = 1"
| "outer_len Dot = 1"
| "outer_len (OneOf cs) = 1"
| "outer_len (NoneOf cs) = 1"
| "outer_len Eps = 0"
| "outer_len Eos = 0"
| "outer_len (Seq a b) = outer_len a + outer_len b"
| "outer_len (Alt a b) = min (outer_len a) (outer_len b)"
| "outer_len (Rep lo hi g r) = (case hi of None \<Rightarrow> lo | Some h \<Rightarrow> min lo h) * outer_len r"
| "outer_len (Grp n r) = 0"

text \<open>Pattern syntax: a literal string, a sequence, and the quantifiers \<open>*\<close>, \<open>*?\<close>, \<open>+\<close>, \<open>?\<close>.\<close>

fun str :: "string \<Rightarrow> regex" where
  "str [] = Eps"
| "str (a # as) = Seq (Lit a) (str as)"

fun seqs :: "regex list \<Rightarrow> regex" where
  "seqs [] = Eps"
| "seqs [r] = r"
| "seqs (r # rs) = Seq r (seqs rs)"

definition rx_space :: regex where "rx_space = OneOf white_space"

definition rx_digit :: regex where "rx_digit = OneOf ''0123456789''"

definition rx_star :: "regex \<Rightarrow> regex" where "rx_star r = Rep 0 None True r"

definition rx_lazy_star :: "regex \<Rightarrow> regex" where "rx_lazy_star r = Rep 0 None False r"

definition rx_plus :: "regex \<Rightarrow> regex" where "rx_plus r = Rep 1 None True r"

definition rx_opt :: "regex \<Rightarrow> regex" where "rx_opt r = Rep 0 (Some 1) True r"

definition dquote :: char where "dquote = CHR 0x22"

definition squote :: char where "squote = CHR 0x27"

definition newline :: char where "newline = CHR 0x0A"

text \<open>
  The colour grammar shared by the mark and span patterns:
  \<^verbatim>\<open>rgba\(\d+,\s*\d+,\s*\d+,\s*[0-9.]+\)|#[0-9a-fA-F]{3,8}|var\(--[^)]+\)\<close>
\<close>

definition COLOR :: regex where
  "COLOR =
     Alt (seqs [str ''rgba('', rx_plus rx_digit, Lit CHR '','', rx_star rx_space,
                rx_plus rx_digit, Lit CHR '','', rx_star rx_space,
                rx_plus rx_digit, Lit CHR '','', rx_star rx_space,
                rx_plus (OneOf ''0123456789.''), Lit CHR '')''])
    (Alt (seqs [Lit CHR ''#'', Rep 3 (Some 8) True (OneOf ''0123456789abcdefABCDEF'')])
         (seqs [str ''var(--'', rx_plus (NoneOf '')''), Lit CHR '')'']))"

text \<open>
  \<^verbatim>\<open>DOUBLE_EQUALS_REGEX = /==\s*(.*?)\s*==/\<close>. The argument is the number of capturing
  groups that stand before the pattern in the combined expression.
\<close>

definition DOUBLE_EQUALS_REGEX :: "nat \<Rightarrow> regex" where
  "DOUBLE_EQUALS_REGEX k =
     seqs [str ''=='', rx_star rx_space, Grp (k + 1) (rx_lazy_star Dot), rx_star rx_space,
           str ''=='']"

text \<open>
  \<^verbatim>\<open>MARK_TAG_REGEX = /<mark(?:\s+class="[^"]*"|\s+style=["'][^"']*?background(?:-color)?:\s*(COLOR)[^"']*["'])*\s*>(.*?)<\/mark>/\<close>
\<close>

definition MARK_TAG_REGEX :: "nat \<Rightarrow> regex" where
  "MARK_TAG_REGEX k =
     seqs [str ''<mark'',
           rx_star
             (Alt (seqs [rx_plus rx_space, str ''class='', Lit dquote, rx_star (NoneOf [dquote]),
                         Lit dquote])
                  (seqs [rx_plus rx_space, str ''style='', OneOf [dquote, squote],
                         rx_lazy_star (NoneOf [dquote, squote]), str ''background'',
                         rx_opt (str ''-color''), Lit CHR '':'', rx_star rx_space,
                         Grp (k + 1) COLOR, rx_star (NoneOf [dquote, squote]),
                         OneOf [dquote, squote]])),
           rx_star rx_space, Lit CHR ''>'', Grp (k + 2) (rx_lazy_star Dot), str ''</mark>'']"

text \<open>
  \<^verbatim>\<open>SPAN_TAG_REGEX = /<span\s+style=["']background(?:-color)?:\s*(COLOR)["']>\s*(.*?)\s*<\/span>/\<close>
\<close>

definition SPAN_TAG_REGEX :: "nat \<Rightarrow> regex" where
  "SPAN_TAG_REGEX k =
     seqs [str ''<span'', rx_plus rx_space, str ''style='', OneOf [dquote, squote],
           str ''background'', rx_opt (str ''-color''), Lit CHR '':'', rx_star rx_space,
           Grp (k + 1) COLOR, OneOf [dquote, squote], Lit CHR ''>'', rx_star rx_space,
           Grp (k + 2) (rx_lazy_star Dot), rx_star rx_space, str ''</span>'']"

text \<open>
  \<open>HIGHLIGHT_REGEX\<close> joins the three sources with \<open>|\<close>, so the groups are numbered through:
  1 the double-equals text, 2 and 3 the mark colour and text, 4 and 5 the span colour and
  text.
\<close>

definition HIGHLIGHT_REGEX :: regex where
  "HIGHLIGHT_REGEX = Alt (DOUBLE_EQUALS_REGEX 0) (Alt (MARK_TAG_REGEX 1) (SPAN_TAG_REGEX 3))"

text \<open>
  \<open>search r s j\<close> tries the pattern at the start of \<open>s\<close> (which stands at position \<open>j\<close> of the
  whole text) and then at each later position, the end of the text included.
\<close>

fun search :: "regex \<Rightarrow> string \<Rightarrow> nat \<Rightarrow> (nat \<times> mstate) option" where
  "search r [] j =
     (case matcher r \<lparr>rest = [], caps = \<lambda>k. None\<rparr> Some of
        Some y \<Rightarrow> Some (j, y) | None \<Rightarrow> None)"
| "search r (a # s) j =
     (case matcher r \<lparr>rest = a # s, caps = \<lambda>k. None\<rparr> Some of
        Some y \<Rightarrow> Some (j, y) | None \<Rightarrow> search r s (Suc j))"

text \<open>The array that \<^verbatim>\<open>exec\<close> returns for \<open>HIGHLIGHT_REGEX\<close> (the source's \<^verbatim>\<open>RegexMatch\<close>).\<close>

record RegexMatch =
  fullMatch :: string
  doubleEqual :: "string option"
  markBg :: "string option"
  markText :: "string option"
  spanBg :: "string option"
  spanText :: "string option"
  index :: nat

text \<open>
  \<^verbatim>\<open>regex.exec(content)\<close> of the global expression whose \<^verbatim>\<open>lastIndex\<close> is the second
  argument. After a match the caller's next \<^verbatim>\<open>lastIndex\<close> is the end of the match,
  \<open>index m + length (fullMatch m)\<close>.
\<close>

definition exec :: "string \<Rightarrow> nat \<Rightarrow> RegexMatch option" where
  "exec content lastIndex =
     (if length content < lastIndex then None
      else case search HIGHLIGHT_REGEX (drop lastIndex content) lastIndex of
        None \<Rightarrow> None
      | Some (j, y) \<Rightarrow>
          Some \<lparr>fullMatch = take (length content - j - length (rest y)) (drop j content),
                doubleEqual = caps y 1, markBg = caps y 2, markText = caps y 3,
                spanBg = caps y 4, spanText = caps y 5, index = j\<rparr>)"

subsection \<open>A bound on what a match has read\<close>

text \<open>
  \<open>covered T b y\<close>: of the \<open>T\<close> characters the attempt started with, the state \<open>y\<close> has read at
  least \<open>b\<close>, and at least \<open>b\<close> beside any one of its captures.
\<close>

definition covered :: "nat \<Rightarrow> nat \<Rightarrow> mstate \<Rightarrow> bool" where
  "covered T b y \<longleftrightarrow>
     b + length (rest y) \<le> T \<and>
     (\<forall>n s. caps y n = Some s \<longrightarrow> length s + b + length (rest y) \<le> T)"

section \<open>Highlight extraction\<close>

text \<open>
  The source's \<^verbatim>\<open>CommentItem\<close>, and the fields of \<^verbatim>\<open>HighlightInfo\<close> that
  \<^verbatim>\<open>extractHighlights\<close> fills in (every field but \<^verbatim>\<open>text\<close> is optional in the
  interface; the ones left out here are never set by the service). Numbers are integers.
\<close>

record CommentItem =
  ci_id :: string
  ci_content :: string
  ci_createdAt :: int
  ci_updatedAt :: int

record HighlightInfo =
  h_text :: string
  h_position :: "int option"
  h_paragraphOffset :: "int option"
  h_backgroundColor :: "string option"
  h_id :: "string option"
  h_comments :: "CommentItem list option"
  h_createdAt :: "int option"
  h_updatedAt :: "int option"
  h_originalLength :: "int option"

text \<open>
  JavaScript's \<^verbatim>\<open>a || b\<close> on values that are a string or \<^verbatim>\<open>undefined\<close>: the empty
  string and \<^verbatim>\<open>undefined\<close> are falsy.
\<close>

definition truthy :: "string option \<Rightarrow> bool" where
  "truthy a = (case a of None \<Rightarrow> False | Some s \<Rightarrow> s \<noteq> [])"

definition js_or :: "string option \<Rightarrow> string option \<Rightarrow> string option" where
  "js_or a b = (if truthy a then a else b)"

text \<open>\<^verbatim>\<open>String.prototype.trim\<close>: white space and line terminators go from both ends.\<close>

definition trim :: "string \<Rightarrow> string" where
  "trim s = rev (dropWhile (\<lambda>c. c \<in> set white_space) (rev (dropWhile (\<lambda>c. c \<in> set white_space) s)))"

text \<open>\<^verbatim>\<open>s.lastIndexOf(c)\<close> for a single character: the last index of \<open>c\<close>, or \<open>-1\<close>.\<close>

definition lastIndexOf :: "string \<Rightarrow> char \<Rightarrow> int" where
  "lastIndexOf s c =
     (if c \<in> set s then int (length s) - 1 - int (length (takeWhile (\<lambda>d. d \<noteq> c) (rev s)))
      else - 1)"

text \<open>Decimal digits of an integer, as a template literal prints it.\<close>

fun string_of_nat :: "nat \<Rightarrow> string" where
  "string_of_nat n =
     (if n < 10 then [''0123456789'' ! n]
      else string_of_nat (n div 10) @ [''0123456789'' ! (n mod 10)])"

definition string_of_int :: "int \<Rightarrow> string" where
  "string_of_int i = (if i < 0 then CHR ''-'' # string_of_nat (nat (- i)) else string_of_nat (nat i))"

text \<open>
  \<^verbatim>\<open>Array.prototype.sort\<close> with a comparator: a stable sort. An element goes before the
  first later element it does not compare greater than.
\<close>

fun insert_by :: "('a \<Rightarrow> 'a \<Rightarrow> int) \<Rightarrow> 'a \<Rightarrow> 'a list \<Rightarrow> 'a list" where
  "insert_by cmp x [] = [x]"
| "insert_by cmp x (y # ys) = (if cmp x y \<le> 0 then x # y # ys else y # insert_by cmp x ys)"

definition js_sort :: "('a \<Rightarrow> 'a \<Rightarrow> int) \<Rightarrow> 'a list \<Rightarrow> 'a list" where
  "js_sort cmp xs = foldr (insert_by cmp) xs []"

text \<open>
  \<^verbatim>\<open>hasHighlights\<close> runs \<^verbatim>\<open>exec\<close> once on a fresh copy of the expression and looks at
  that first match only.
\<close>

definition hasHighlights :: "string \<Rightarrow> bool" where
  "hasHighlights content =
     (case exec content 0 of
        Some m \<Rightarrow>
          (case js_or (js_or (doubleEqual m) (markText m)) (spanText m) of
             None \<Rightarrow> False
           | Some t \<Rightarrow> trim t \<noteq> [])
      | None \<Rightarrow> False)"

definition getParagraphOffset :: "string \<Rightarrow> nat \<Rightarrow> int" where
  "getParagraphOffset content position =
     (let beforeText = take position content;
          lastNewline = lastIndexOf beforeText newline
      in if lastNewline = - 1 then int position else int position - lastNewline)"

text \<open>
  What one round of the \<^verbatim>\<open>while\<close> loop of \<^verbatim>\<open>extractHighlights\<close> resolves from a match:
  \<^verbatim>\<open>text = doubleEqual || markText || spanText || ''\<close> and
  \<^verbatim>\<open>backgroundColor = markBg || spanBg || undefined\<close>.
\<close>

definition match_text :: "RegexMatch \<Rightarrow> string" where
  "match_text m =
     (case js_or (js_or (doubleEqual m) (markText m)) (spanText m) of
        None \<Rightarrow> [] | Some t \<Rightarrow> t)"

definition match_backgroundColor :: "RegexMatch \<Rightarrow> string option" where
  "match_backgroundColor m = js_or (js_or (markBg m) (spanBg m)) None"

definition isDuplicate :: "HighlightInfo list \<Rightarrow> RegexMatch \<Rightarrow> bool" where
  "isDuplicate highlights m =
     list_ex (\<lambda>h. case h_position h of
                    None \<Rightarrow> False
                  | Some p \<Rightarrow> \<bar>p - int (index m)\<bar> < 10 \<and> h_text h = match_text m)
       highlights"

text \<open>
  The record pushed for an accepted match. \<open>now\<close> gives the readings of \<^verbatim>\<open>Date.now()\<close> in
  the order of the calls; \<open>tick\<close> counts the calls made so far.
\<close>

definition new_highlight :: "(nat \<Rightarrow> int) \<Rightarrow> nat \<Rightarrow> string \<Rightarrow> RegexMatch \<Rightarrow> HighlightInfo" where
  "new_highlight now tick content m =
     \<lparr>h_text = match_text m,
      h_position = Some (int (index m)),
      h_paragraphOffset = Some (getParagraphOffset content (index m)),
      h_backgroundColor = match_backgroundColor m,
      h_id = Some (''highlight-'' @ string_of_int (now tick) @ ''-'' @ string_of_nat (index m)),
      h_comments = Some [],
      h_createdAt = Some (now (tick + 1)),
      h_updatedAt = Some (now (tick + 2)),
      h_originalLength = Some (int (length (fullMatch m)))\<rparr>"

definition loop_body ::
  "(nat \<Rightarrow> int) \<Rightarrow> string \<Rightarrow> RegexMatch \<Rightarrow> nat \<times> HighlightInfo list \<Rightarrow> nat \<times> HighlightInfo list"
where
  "loop_body now content m st =
     (case st of (tick, highlights) \<Rightarrow>
        if \<not> isDuplicate highlights m \<and> match_text m \<noteq> []
        then (tick + 3, highlights @ [new_highlight now tick content m])
        else (tick, highlights))"

text \<open>
  The loop \<^verbatim>\<open>while ((match = regex.exec(content)) !== null)\<close>. It ends because a match is
  never empty, so \<^verbatim>\<open>lastIndex\<close> grows; the proof follows the bounds on \<open>exec\<close> below.
\<close>

function extract_loop ::
  "(nat \<Rightarrow> int) \<Rightarrow> string \<Rightarrow> nat \<Rightarrow> nat \<times> HighlightInfo list \<Rightarrow> nat \<times> HighlightInfo list"
where
  "extract_loop now content lastIndex st =
     (case exec content lastIndex of
        None \<Rightarrow> st
      | Some m \<Rightarrow>
          extract_loop now content (index m + length (fullMatch m)) (loop_body now content m st))"
  by pat_completeness auto

definition extractHighlights :: "(nat \<Rightarrow> int) \<Rightarrow> string \<Rightarrow> HighlightInfo list" where
  "extractHighlights now content =
     js_sort (\<lambda>a b. (case h_position a of None \<Rightarrow> 0 | Some p \<Rightarrow> p)
                   - (case h_position b of None \<Rightarrow> 0 | Some p \<Rightarrow> p))
       (snd (extract_loop now content 0 (0, [])))"

text \<open>
  The matches that the loop of one call goes through, in order, and the state of the loop
  (the count of clock readings and the list \<^verbatim>\<open>highlights\<close>) after a number of them.
\<close>

function matches :: "string \<Rightarrow> nat \<Rightarrow> RegexMatch list" where
  "matches content lastIndex =
     (case exec content lastIndex of
        None \<Rightarrow> []
      | Some m \<Rightarrow> m # matches content (index m + length (fullMatch m)))"
  by pat_completeness auto

definition loop_state :: "(nat \<Rightarrow> int) \<Rightarrow> string \<Rightarrow> RegexMatch list \<Rightarrow> nat \<times> HighlightInfo list" where
  "loop_state now content ms = foldl (\<lambda>st m. loop_body now content m st) (0, []) ms"

text \<open>
  \<open>from_match content h\<close>: the occurrence \<open>h\<close> has the position of a match inside the text and
  the paragraph offset computed for that position.
\<close>

definition from_match :: "string \<Rightarrow> HighlightInfo \<Rightarrow> bool" where
  "from_match content h \<longleftrightarrow>
     (\<exists>m::RegexMatch. index m \<le> length content \<and> h_position h = Some (int (index m)) \<and>
          h_paragraphOffset h = Some (getParagraphOffset content (index m)))"

section \<open>The comment store\<close>

text \<open>
  The records of \<^verbatim>\<open>types.ts\<close>. \<^verbatim>\<open>paragraphId\<close> and \<^verbatim>\<open>comments\<close> are declared as always
  present, but the store tests both for absence before it uses them, so they are optional
  here, as are the fields the interface marks optional.
\<close>

record HighlightComment =
  hc_id :: string
  hc_text :: string
  hc_position :: int
  hc_paragraphId :: "string option"
  hc_comments :: "CommentItem list option"
  hc_createdAt :: int
  hc_updatedAt :: int
  hc_isVirtual :: "bool option"
  hc_filePath :: "string option"
  hc_fileType :: "string option"
  hc_displayText :: "string option"
  hc_paragraphOffset :: "int option"
  hc_backgroundColor :: "string option"

record FileComment =
  fc_id :: string
  fc_content :: string
  fc_createdAt :: int
  fc_updatedAt :: int
  fc_filePath :: string

subsection \<open>Objects and maps of JavaScript\<close>

text \<open>
  A \<^verbatim>\<open>Map\<close> and a plain object keyed by strings are lists of entries in enumeration
  order. \<open>put\<close> is \<^verbatim>\<open>Map.prototype.set\<close>: an existing key keeps its place, a new key goes
  to the end. \<open>remove\<close> is \<^verbatim>\<open>delete\<close>.
\<close>

type_synonym 'v entries = "(string \<times> 'v) list"

primrec put :: "string \<Rightarrow> 'v \<Rightarrow> 'v entries \<Rightarrow> 'v entries" where
  "put k v [] = [(k, v)]"
| "put k v (e # es) = (if fst e = k then (k, v) # es else e # put k v es)"

definition remove :: "string \<Rightarrow> 'v entries \<Rightarrow> 'v entries" where
  "remove k es = filter (\<lambda>e. fst e \<noteq> k) es"

text \<open>
  A plain object enumerates its array-index keys first, in ascending numeric order, and
  then its other keys in the order they were created. An array index is the canonical
  decimal string of a number below \<open>2^32 - 1\<close>.
\<close>

definition nat_of_digits :: "string \<Rightarrow> nat" where
  "nat_of_digits k = foldl (\<lambda>n c. 10 * n + (of_char c - 48)) 0 k"

definition is_array_index :: "string \<Rightarrow> bool" where
  "is_array_index k \<longleftrightarrow>
     k \<noteq> [] \<and> list_all (\<lambda>c. c \<in> set ''0123456789'') k \<and>
     (k = ''0'' \<or> hd k \<noteq> CHR ''0'') \<and> nat_of_digits k < 2 ^ 32 - 1"

fun insert_index :: "string \<Rightarrow> 'v \<Rightarrow> 'v entries \<Rightarrow> 'v entries" where
  "insert_index k v [] = [(k, v)]"
| "insert_index k v (e # es) =
     (if is_array_index (fst e) \<and> nat_of_digits (fst e) < nat_of_digits k
      then e # insert_index k v es else (k, v) # e # es)"

definition obj_set :: "string \<Rightarrow> 'v \<Rightarrow> 'v entries \<Rightarrow> 'v entries" where
  "obj_set k v ob =
     (if map_of ob k \<noteq> None \<or> \<not> is_array_index k then put k v ob else insert_index k v ob)"

text \<open>\<^verbatim>\<open>new Map(entries)\<close> and \<^verbatim>\<open>Object.fromEntries(entries)\<close> set the entries one by one.\<close>

definition new_Map :: "'v entries \<Rightarrow> 'v entries" where
  "new_Map es = foldl (\<lambda>m e. put (fst e) (snd e) m) [] es"

definition fromEntries :: "'v entries \<Rightarrow> 'v entries" where
  "fromEntries es = foldl (\<lambda>ob e. obj_set (fst e) (snd e) ob) [] es"

text \<open>
  The entries are the own properties of a plain object. The object also answers for the
  names it inherits from \<^verbatim>\<open>Object.prototype\<close>: reading \<^verbatim>\<open>ob[k]\<close> gives the own value of \<open>k\<close>
  if there is one; otherwise, if \<open>k\<close> is the name of a member of \<^verbatim>\<open>Object.prototype\<close>, that
  member (a built-in function, or for \<^verbatim>\<open>__proto__\<close> the prototype itself), which is truthy;
  otherwise \<^verbatim>\<open>undefined\<close>. \<^verbatim>\<open>Object.values\<close>, \<^verbatim>\<open>Object.keys\<close>, \<^verbatim>\<open>Object.entries\<close>, \<^verbatim>\<open>delete\<close>
  and the saved JSON see own properties only.

  \<open>obj_set\<close> defines an own property. This is what \<^verbatim>\<open>Object.fromEntries\<close> and the parser of
  the stored JSON do for every key, and what the assignment \<^verbatim>\<open>ob[k] = v\<close> does for every
  key but one: for \<^verbatim>\<open>__proto__\<close>, when the object has no own property of that name, the
  assignment calls the inherited setter, which makes \<open>v\<close> the prototype of the object and
  defines nothing.
\<close>

definition Object_prototype_names :: "string list" where
  "Object_prototype_names =
     [''constructor'', ''__defineGetter__'', ''__defineSetter__'', ''hasOwnProperty'',
      ''__lookupGetter__'', ''__lookupSetter__'', ''isPrototypeOf'', ''propertyIsEnumerable'',
      ''toString'', ''valueOf'', ''__proto__'', ''toLocaleString'']"

datatype 'v member = Own 'v | Inherited | Missing

definition js_get :: "'v entries \<Rightarrow> string \<Rightarrow> 'v member" where
  "js_get ob k =
     (case map_of ob k of
        Some v \<Rightarrow> Own v
      | None \<Rightarrow> if k \<in> set Object_prototype_names then Inherited else Missing)"

subsection \<open>The state of the store and of its host\<close>

text \<open>
  What \<^verbatim>\<open>plugin.saveData\<close> is given and \<^verbatim>\<open>plugin.loadData\<close> gives back. Either key may be
  missing from what is loaded.
\<close>

record saved_data =
  sd_comments :: "HighlightComment entries entries option"
  sd_fileComments :: "FileComment list entries option"

text \<open>
  The fields of \<^verbatim>\<open>CommentStore\<close>. \<open>disk\<close> stands for the plugin's storage: the payloads of
  all calls of \<^verbatim>\<open>saveData\<close> so far, the last one being what \<^verbatim>\<open>loadData\<close> returns.

  The source shares objects: after loading, the lists in \<open>fileComments\<close> are the arrays of
  \<open>fileCommentsData\<close>, and the records in the index \<open>comments\<close> and in the lists of
  \<open>commentCache\<close> are the records of \<open>data\<close>. Here every field holds values. No operation
  below changes a list of file comments, and the store reads neither the index nor the
  records in the cache, so the index and the cache merely show the records as they were
  when they were put there. \<^verbatim>\<open>updateComment\<close> changes a record object in place: in the source
  the change shows wherever that same object is held (the index, the cache, another key
  under which a caller has stored the same object), here under the path and id of the
  call only. The properties below of \<^verbatim>\<open>updateComment\<close> speak of the record under that path
  and id and of no other.
\<close>

record CommentStore =
  data :: "HighlightComment entries entries"
  fileCommentsData :: "FileComment list entries"
  comments :: "HighlightComment list entries"
  fileComments :: "FileComment list entries"
  commentCache :: "HighlightComment list entries"
  disk :: "saved_data list"

definition maxCacheSize :: nat where
  "maxCacheSize = 100"

definition new_CommentStore :: "saved_data list \<Rightarrow> CommentStore" where
  "new_CommentStore d =
     \<lparr>data = [], fileCommentsData = [], comments = [], fileComments = [], commentCache = [],
      disk = d\<rparr>"

text \<open>
  The host editor, as far as \<^verbatim>\<open>addComment\<close> uses it: the line of an offset, reading a line
  and replacing a line. \<^verbatim>\<open>View\<close> is the active Markdown view with its file's path.
\<close>

record Editor =
  offsetToPos_line :: "int \<Rightarrow> nat"
  getLine :: "nat \<Rightarrow> string"

definition setLine :: "nat \<Rightarrow> string \<Rightarrow> Editor \<Rightarrow> Editor" where
  "setLine n t ed = ed\<lparr>getLine := (getLine ed)(n := t)\<rparr>"

record View =
  v_editor :: Editor
  v_file :: "string option"

subsection \<open>Loading and saving\<close>

definition loadData :: "CommentStore \<Rightarrow> saved_data option" where
  "loadData s = (if disk s = [] then None else Some (last (disk s)))"

definition loadComments :: "CommentStore \<Rightarrow> CommentStore" where
  "loadComments s =
     (let loaded = loadData s;
          d = (case loaded of None \<Rightarrow> []
               | Some sd \<Rightarrow> (case sd_comments sd of None \<Rightarrow> [] | Some c \<Rightarrow> c));
          fd = (case loaded of None \<Rightarrow> []
                | Some sd \<Rightarrow> (case sd_fileComments sd of None \<Rightarrow> [] | Some c \<Rightarrow> c))
      in s\<lparr>data := d, fileCommentsData := fd,
           comments := new_Map (map (\<lambda>e. (fst e, map snd (snd e))) d),
           fileComments := new_Map fd\<rparr>)"

definition payload :: "CommentStore \<Rightarrow> saved_data" where
  "payload s = \<lparr>sd_comments = Some (data s), sd_fileComments = Some (fromEntries (fileComments s))\<rparr>"

definition saveComments :: "CommentStore \<Rightarrow> CommentStore" where
  "saveComments s = s\<lparr>disk := disk s @ [payload s]\<rparr>"

subsection \<open>Queries\<close>

text \<open>
  \<open>file_records s path\<close> is what \<^verbatim>\<open>Object.values(this.data[path] || {})\<close> enumerates, with the
  keys: the entries of the object stored under the path, and nothing if the path is not
  a key of \<open>data\<close>. A path that is not a key but the name of a member of
  \<^verbatim>\<open>Object.prototype\<close> reads that built-in object, which has no enumerable property of its
  own as long as no call has written to it (see \<open>outcome\<close> below).
\<close>

definition file_records :: "CommentStore \<Rightarrow> string \<Rightarrow> HighlightComment entries" where
  "file_records s path = (case map_of (data s) path of None \<Rightarrow> [] | Some ob \<Rightarrow> ob)"

definition is_virtual :: "HighlightComment \<Rightarrow> bool" where
  "is_virtual h = (case hc_isVirtual h of None \<Rightarrow> False | Some b \<Rightarrow> b)"

definition virtual_first :: "HighlightComment \<Rightarrow> HighlightComment \<Rightarrow> int" where
  "virtual_first a b =
     (let aIsVirtual = is_virtual a; bIsVirtual = is_virtual b
      in if aIsVirtual \<and> \<not> bIsVirtual then - 1
         else if \<not> aIsVirtual \<and> bIsVirtual then 1
         else hc_position a - hc_position b)"

definition getFileComments :: "CommentStore \<Rightarrow> string \<Rightarrow> HighlightComment list" where
  "getFileComments s path = js_sort virtual_first (map snd (file_records s path))"

definition getFileOnlyComments :: "CommentStore \<Rightarrow> string \<Rightarrow> FileComment list" where
  "getFileOnlyComments s path = (case map_of (fileComments s) path of None \<Rightarrow> [] | Some cs \<Rightarrow> cs)"

definition getCommentsByParagraphId :: "CommentStore \<Rightarrow> string \<Rightarrow> string \<Rightarrow> HighlightComment list" where
  "getCommentsByParagraphId s path paragraphId =
     js_sort (\<lambda>a b. hc_position a - hc_position b)
       (filter (\<lambda>highlight. hc_paragraphId highlight = Some paragraphId)
          (map snd (file_records s path)))"

definition hasParagraphComments :: "CommentStore \<Rightarrow> string \<Rightarrow> string \<Rightarrow> bool" where
  "hasParagraphComments s path paragraphId =
     (0 < length (getCommentsByParagraphId s path paragraphId))"

subsection \<open>Adding, commenting, removing\<close>

text \<open>
  \<^verbatim>\<open>getBlockId\<close>: the block id at the end of the line, \<^verbatim>\<open>/\^([a-zA-Z0-9-]+)$/\<close>, or else a
  new one, which is also appended to the line. \<open>rnd\<close> is what
  \<^verbatim>\<open>Math.random().toString(36).substr(2, 9)\<close> gives.
\<close>

definition BLOCK_ID_REGEX :: regex where
  "BLOCK_ID_REGEX =
     seqs [Lit CHR 0x5E,
           Grp 1 (rx_plus (OneOf
             ''abcdefghijklmnopqrstuvwxyzABCDEFGHIJKLMNOPQRSTUVWXYZ0123456789-'')),
           Eos]"

definition getBlockId :: "string \<Rightarrow> Editor \<Rightarrow> nat \<Rightarrow> string \<times> Editor" where
  "getBlockId rnd ed line =
     (let lineText = getLine ed line in
      case search BLOCK_ID_REGEX lineText 0 of
        Some (j, y) \<Rightarrow> (case caps y 1 of Some b \<Rightarrow> (b, ed) | None \<Rightarrow> (''undefined'', ed))
      | None \<Rightarrow> (rnd, setLine line (lineText @ '' ^'' @ rnd) ed))"

text \<open>
  The part of \<^verbatim>\<open>addComment\<close> that makes sure of a \<^verbatim>\<open>paragraphId\<close>: a virtual highlight
  and one that has a \<^verbatim>\<open>paragraphId\<close> are taken as they are; otherwise the id comes from
  the block of the active editor at the highlight's position, or, with no active view or
  file, from the path and the clock. \<open>view\<close> is the active Markdown view, if any, \<open>now\<close> the
  reading of \<^verbatim>\<open>Date.now()\<close>.
\<close>

definition with_paragraphId ::
  "View option \<Rightarrow> int \<Rightarrow> string \<Rightarrow> string \<Rightarrow> HighlightComment \<Rightarrow> HighlightComment \<times> View option"
where
  "with_paragraphId view now rnd path highlight =
     (if is_virtual highlight then (highlight, view)
      else if truthy (hc_paragraphId highlight) then (highlight, view)
      else
        (case view of
           Some v \<Rightarrow>
             (case v_file v of
                Some currentFile \<Rightarrow>
                  (let line = offsetToPos_line (v_editor v) (hc_position highlight);
                       (b, ed) = getBlockId rnd (v_editor v) line;
                       blockId = currentFile @ ''#^'' @ b
                   in (highlight\<lparr>hc_paragraphId := Some blockId\<rparr>, Some (v\<lparr>v_editor := ed\<rparr>)))
              | None \<Rightarrow>
                  (highlight\<lparr>hc_paragraphId := Some (path @ ''#^'' @ string_of_int now)\<rparr>, view))
         | None \<Rightarrow>
             (highlight\<lparr>hc_paragraphId := Some (path @ ''#^'' @ string_of_int now)\<rparr>, view)))"

text \<open>
  What a call that changes records leaves behind.

  \<^item> \<open>Done s\<close>: the call has read and written own properties of the store's objects only;
    \<open>s\<close> is the store after it.

  \<^item> \<open>Polluted s\<close>: the call has also written to an object that is not one of the store's
    records: it has replaced the prototype of a document's object, or it has set
    properties of a member of \<^verbatim>\<open>Object.prototype\<close>. The fields of the store are those of
    \<open>s\<close>, own property by own property; a name that is looked up afterwards through the
    object written to is no longer answered as \<open>js_get\<close> says.

  \<^item> \<open>Outside\<close>: the path is not a key of \<open>data\<close> but the name of a member of
    \<^verbatim>\<open>Object.prototype\<close>, so that \<^verbatim>\<open>this.data[path]\<close> is that built-in object and the call
    reads or writes its properties. What the call does there is not followed.
\<close>

datatype 'a outcome = Done 'a | Polluted 'a | Outside

definition carried :: "'a outcome \<Rightarrow> 'a option" where
  "carried r = (case r of Done s \<Rightarrow> Some s | Polluted s \<Rightarrow> Some s | Outside \<Rightarrow> None)"

text \<open>
  \<^verbatim>\<open>this.data[file.path][highlight.id] = highlight; await this.saveComments()\<close>, where \<open>ob\<close>
  is the object stored under the path. The id \<^verbatim>\<open>__proto__\<close>, unless \<open>ob\<close> has an own property
  of that name, makes the highlight the prototype of \<open>ob\<close> and stores no record.
\<close>

definition write_record ::
  "string \<Rightarrow> HighlightComment \<Rightarrow> HighlightComment entries \<Rightarrow> CommentStore \<Rightarrow> CommentStore outcome"
where
  "write_record path highlight ob s =
     (if hc_id highlight = ''__proto__'' \<and> map_of ob ''__proto__'' = None
      then Polluted (saveComments s)
      else Done (saveComments
                   (s\<lparr>data := obj_set path (obj_set (hc_id highlight) highlight ob) (data s)\<rparr>)))"

text \<open>
  \<^verbatim>\<open>addComment(file, highlight)\<close>. The test \<^verbatim>\<open>!this.data[file.path]\<close> reads the path as
  \<open>js_get\<close> does: an empty object is stored under a path that is missing, and only then.
  The record is written under its id into the object of the path and the store is saved.
  The result is the outcome and the view, whose editor may have a line changed.
\<close>

definition addComment ::
  "View option \<Rightarrow> int \<Rightarrow> string \<Rightarrow> string \<Rightarrow> HighlightComment \<Rightarrow> CommentStore \<Rightarrow>
   CommentStore outcome \<times> View option"
where
  "addComment view now rnd path highlight s0 =
     (let (highlight', view') = with_paragraphId view now rnd path highlight
      in case js_get (data s0) path of
           Missing \<Rightarrow>
             (write_record path highlight' [] (s0\<lparr>data := obj_set path [] (data s0)\<rparr>), view')
         | Own ob \<Rightarrow> (write_record path highlight' ob s0, view')
         | Inherited \<Rightarrow> (Outside, view'))"

text \<open>
  \<^verbatim>\<open>updateComment(file, highlightId, commentContent)\<close>. \<open>now k\<close> is the reading of the
  \<open>k\<close>-th call of \<^verbatim>\<open>Date.now()\<close> in it: for the id, \<^verbatim>\<open>createdAt\<close>, \<^verbatim>\<open>updatedAt\<close> of the
  new comment, and last for the highlight's \<^verbatim>\<open>updatedAt\<close>.

  The test \<^verbatim>\<open>this.data[file.path]?.[highlightId]\<close> reads both names as \<open>js_get\<close> does. An id
  that the document's object inherits finds a member of \<^verbatim>\<open>Object.prototype\<close>: the call
  gives that member a \<^verbatim>\<open>comments\<close> array with the new comment and an \<^verbatim>\<open>updatedAt\<close>, and
  saves the store, whose records are as they were.
\<close>

definition updateComment ::
  "(nat \<Rightarrow> int) \<Rightarrow> string \<Rightarrow> string \<Rightarrow> string \<Rightarrow> CommentStore \<Rightarrow> CommentStore outcome"
where
  "updateComment now path highlightId commentContent s =
     (case js_get (data s) path of
        Missing \<Rightarrow> Done s
      | Inherited \<Rightarrow> Outside
      | Own ob \<Rightarrow>
          (case js_get ob highlightId of
             Missing \<Rightarrow> Done s
           | Inherited \<Rightarrow> Polluted (saveComments s)
           | Own highlight \<Rightarrow>
               (let newComment = \<lparr>ci_id = ''comment-'' @ string_of_int (now 0),
                                  ci_content = commentContent,
                                  ci_createdAt = now 1, ci_updatedAt = now 2\<rparr>;
                    old = (case hc_comments highlight of None \<Rightarrow> [] | Some cs \<Rightarrow> cs);
                    highlight' = highlight\<lparr>hc_comments := Some (old @ [newComment]),
                                           hc_updatedAt := now 3\<rparr>
                in Done (saveComments
                           (s\<lparr>data := obj_set path (obj_set highlightId highlight' ob) (data s)\<rparr>)))))"

text \<open>
  \<^verbatim>\<open>removeComment(file, highlight)\<close>. The test \<^verbatim>\<open>this.data[filePath]?.[highlight.id]\<close> reads
  both names as \<open>js_get\<close> does. An id that the document's object inherits passes the
  test; \<^verbatim>\<open>delete\<close> then finds no own property to delete, the path is deleted if its
  object is empty, and the store is saved.
\<close>

definition removeComment :: "string \<Rightarrow> HighlightComment \<Rightarrow> CommentStore \<Rightarrow> CommentStore outcome" where
  "removeComment filePath highlight s =
     (case js_get (data s) filePath of
        Missing \<Rightarrow> Done s
      | Inherited \<Rightarrow> Outside
      | Own ob0 \<Rightarrow>
          (case js_get ob0 (hc_id highlight) of
             Missing \<Rightarrow> Done s
           | _ \<Rightarrow>
               (let ob = remove (hc_id highlight) ob0;
                    d = (if length (map fst ob) = 0 then remove filePath (data s)
                         else obj_set filePath ob (data s))
                in Done (saveComments (s\<lparr>data := d\<rparr>)))))"

subsection \<open>Cleaning up, the cache, the batch update\<close>

definition cleanup_keys ::
  "string set \<Rightarrow> 'v entries \<times> bool \<Rightarrow> string list \<Rightarrow> 'v entries \<times> bool"
where
  "cleanup_keys existingFiles st keys =
     foldl (\<lambda>st filePath. if filePath \<notin> existingFiles then (remove filePath (fst st), True) else st)
       st keys"

definition cleanupComments :: "string set \<Rightarrow> CommentStore \<Rightarrow> CommentStore" where
  "cleanupComments existingFiles s =
     (let (d, changed1) = cleanup_keys existingFiles (data s, False) (map fst (data s));
          (fd, changed) =
            cleanup_keys existingFiles (fileCommentsData s, changed1) (map fst (fileCommentsData s));
          s' = s\<lparr>data := d, fileCommentsData := fd\<rparr>
      in if changed then saveComments s' else s')"

definition pruneCache :: "CommentStore \<Rightarrow> CommentStore" where
  "pruneCache s =
     (if maxCacheSize < length (commentCache s)
      then let entriesToDelete =
                 take (length (commentCache s) - maxCacheSize) (map fst (commentCache s))
           in foldl (\<lambda>s key. s\<lparr>commentCache := remove key (commentCache s)\<rparr>) s entriesToDelete
      else s)"

definition cache_paragraphs :: "string \<Rightarrow> string list \<Rightarrow> CommentStore \<Rightarrow> CommentStore" where
  "cache_paragraphs currentFile visibleParagraphIds s =
     foldl (\<lambda>s paragraphId.
              s\<lparr>commentCache :=
                  put paragraphId (getCommentsByParagraphId s currentFile paragraphId)
                    (commentCache s)\<rparr>)
       s visibleParagraphIds"

text \<open>
  \<^verbatim>\<open>loadVisibleComments(visibleParagraphIds)\<close>; \<open>activeFile\<close> is the path of
  \<^verbatim>\<open>workspace.getActiveFile()\<close>, if there is one.
\<close>

definition loadVisibleComments :: "string option \<Rightarrow> string list \<Rightarrow> CommentStore \<Rightarrow> CommentStore" where
  "loadVisibleComments activeFile visibleParagraphIds s =
     (case activeFile of
        None \<Rightarrow> s
      | Some currentFile \<Rightarrow> pruneCache (cache_paragraphs currentFile visibleParagraphIds s))"

definition batchUpdateComments ::
  "(string \<times> HighlightComment) list \<Rightarrow> CommentStore \<Rightarrow> CommentStore"
where
  "batchUpdateComments updates s =
     (let batch =
            foldl (\<lambda>batch u.
                     let b = (if map_of batch (fst u) = None then put (fst u) [] batch else batch)
                     in put (fst u) ((case map_of b (fst u) of None \<Rightarrow> [] | Some cs \<Rightarrow> cs) @ [snd u]) b)
              [] updates
      in s\<lparr>comments := foldl (\<lambda>m e. put (fst e) (snd e) m) (comments s) batch\<rparr>)"

subsection \<open>Invariants and sample records\<close>

text \<open>Every record of a document is stored under its own id.\<close>

definition keyed_by_id :: "HighlightComment entries \<Rightarrow> bool" where
  "keyed_by_id ob = list_all (\<lambda>e. hc_id (snd e) = fst e) ob"

text \<open>
  The cache is within its capacity and, being a \<^verbatim>\<open>Map\<close>, has each key once.
\<close>

definition cache_ok :: "CommentStore \<Rightarrow> bool" where
  "cache_ok s \<longleftrightarrow> length (commentCache s) \<le> maxCacheSize \<and> distinct (map fst (commentCache s))"

text \<open>A sequence of calls of \<^verbatim>\<open>loadVisibleComments\<close>, each with its active file and ids.\<close>

definition refresh_all :: "(string option \<times> string list) list \<Rightarrow> CommentStore \<Rightarrow> CommentStore" where
  "refresh_all calls s = foldl (\<lambda>s call. loadVisibleComments (fst call) (snd call) s) s calls"

text \<open>Records to run the store on.\<close>

definition sample_highlight :: "string \<Rightarrow> int \<Rightarrow> bool option \<Rightarrow> HighlightComment" where
  "sample_highlight i p v =
     \<lparr>hc_id = i, hc_text = ''text'', hc_position = p, hc_paragraphId = Some ''a.md#^para'',
      hc_comments = Some [], hc_createdAt = 1000, hc_updatedAt = 1000, hc_isVirtual = v,
      hc_filePath = None, hc_fileType = None, hc_displayText = None, hc_paragraphOffset = None,
      hc_backgroundColor = None\<rparr>"

definition sample_file_comment :: FileComment where
  "sample_file_comment =
     \<lparr>fc_id = ''file-comment-1'', fc_content = ''note'', fc_createdAt = 1000,
      fc_updatedAt = 1000, fc_filePath = ''gone.md''\<rparr>"

text \<open>
  Sample stores: built from a new store by calls of \<^verbatim>\<open>addComment\<close> with no active view
  (\<open>added\<close> is the store that the outcome of one such call carries), and loaded from
  storage in which a record with the id \<^verbatim>\<open>h1\<close> stands under the key \<^verbatim>\<open>x\<close>.
\<close>

definition added :: "int \<Rightarrow> string \<Rightarrow> HighlightComment \<Rightarrow> CommentStore \<Rightarrow> CommentStore" where
  "added now path highlight s =
     (case carried (fst (addComment None now [] path highlight s)) of Some s' \<Rightarrow> s' | None \<Rightarrow> s)"

definition sample_store :: CommentStore where
  "sample_store =
     added 7 ''a.md'' (sample_highlight ''v2'' 2 (Some True))
       (added 6 ''a.md'' (sample_highlight ''n1'' 1 None)
         (added 5 ''a.md'' (sample_highlight ''v1'' 5 (Some True)) (new_CommentStore [])))"

definition sample_loaded :: CommentStore where
  "sample_loaded =
     loadComments (new_CommentStore
       [\<lparr>sd_comments = Some [(''a.md'', [(''x'', sample_highlight ''h1'' 3 None)])],
         sd_fileComments = None\<rparr>])"

text \<open>The ids that the listing of a document shows after a call, if the outcome carries a store.\<close>

definition listed_ids :: "CommentStore outcome \<Rightarrow> string \<Rightarrow> string list option" where
  "listed_ids r path = map_option (\<lambda>s. map hc_id (getFileComments s path)) (carried r)"

section \<open>Properties of the matcher and of the extraction\<close>

subsection \<open>What a match reads\<close>

lemma covered_mono: "covered T b' y \<Longrightarrow> b \<le> b' \<Longrightarrow> covered T b y"
  by (fastforce simp: covered_def)

lemma covered_step:
  "covered T b x \<Longrightarrow> rest x = a # bs \<Longrightarrow> covered T (Suc b) (x\<lparr>rest := bs\<rparr>)"
  by (auto simp: covered_def)

lemma covered_clear:
  "covered T b x \<Longrightarrow> covered T b (x\<lparr>caps := (\<lambda>k. if k \<in> G then None else caps x k)\<rparr>)"
  by (auto simp: covered_def split: if_splits)

lemma covered_capture:
  assumes x: "covered T b x" and y: "covered T b' y" and le: "b \<le> b'"
  shows "covered T b (y\<lparr>caps := (caps y)(n \<mapsto> take (length (rest x) - length (rest y)) (rest x))\<rparr>)"
proof -
  have "length (take (length (rest x) - length (rest y)) (rest x)) + b + length (rest y) \<le> T"
  proof (cases "length (rest y) \<le> length (rest x)")
    case True
    with x show ?thesis by (simp add: covered_def)
  next
    case False
    with y le show ?thesis by (simp add: covered_def)
  qed
  with covered_mono[OF y le] show ?thesis
    by (auto simp: covered_def)
qed

lemma matcher_covered:
  "matcher r x c = Some z \<Longrightarrow> covered T b x \<Longrightarrow>
     \<exists>y. c y = Some z \<and> covered T (b + outer_len r) y"
proof (induction r x c arbitrary: z b rule: matcher.induct)
  case (1 a x c)
  then show ?case by (auto split: list.splits if_splits intro: covered_step)
next
  case (2 x c)
  then show ?case by (auto split: list.splits if_splits intro: covered_step)
next
  case (3 cs x c)
  then show ?case by (auto split: list.splits if_splits intro: covered_step)
next
  case (4 cs x c)
  then show ?case by (auto split: list.splits if_splits intro: covered_step)
next
  case (5 x c)
  then show ?case by auto
next
  case (6 x c)
  then show ?case by (auto split: if_splits)
next
  case (7 r1 r2 x c)
  from "7.prems" have "matcher r1 x (\<lambda>y. matcher r2 y c) = Some z" by simp
  from "7.IH"(2)[OF this "7.prems"(2)] obtain y where y: "matcher r2 y c = Some z"
    "covered T (b + outer_len r1) y" by blast
  from "7.IH"(1)[OF y] obtain y' where "c y' = Some z"
    "covered T (b + outer_len r1 + outer_len r2) y'" by blast
  then show ?case by (intro exI[of _ y']) (simp add: add.assoc)
next
  case (8 r1 r2 x c)
  show ?case
  proof (cases "matcher r1 x c")
    case None
    with "8.prems" have "matcher r2 x c = Some z" by simp
    from "8.IH"(2)[OF None this "8.prems"(2)] obtain y where
      "c y = Some z" "covered T (b + outer_len r2) y" by blast
    then show ?thesis
      by (intro exI[of _ y]) (auto elim: covered_mono)
  next
    case (Some w)
    with "8.prems" have "matcher r1 x c = Some z" by simp
    from "8.IH"(1)[OF this "8.prems"(2)] obtain y where
      "c y = Some z" "covered T (b + outer_len r1) y" by blast
    then show ?thesis
      by (intro exI[of _ y]) (auto elim: covered_mono)
  qed
next
  case (9 n r x c)
  from "9.prems" have "matcher r x
       (\<lambda>y. c (y\<lparr>caps := (caps y)(n \<mapsto> take (length (rest x) - length (rest y)) (rest x))\<rparr>))
      = Some z" by simp
  from "9.IH"[OF this "9.prems"(2)] obtain y where
    y: "c (y\<lparr>caps := (caps y)(n \<mapsto> take (length (rest x) - length (rest y)) (rest x))\<rparr>) = Some z"
    "covered T (b + outer_len r) y" by blast
  from covered_capture[OF "9.prems"(2) y(2)] y(1) show ?case by auto
next
  case (10 lo hi greedy r x c)
  define d where "d = (\<lambda>y. if lo = 0 \<and> length (rest x) \<le> length (rest y) then None
                     else matcher (Rep (lo - 1) (rx_dec hi) greedy r) y c)"
  define xr where "xr = x\<lparr>caps := (\<lambda>k. if k \<in> set (groups r) then None else caps x k)\<rparr>"
  have unf: "matcher (Rep lo hi greedy r) x c =
     (if hi = Some 0 then c x
      else if lo \<noteq> 0 then matcher r xr d
      else if \<not> greedy then (case c x of Some z \<Rightarrow> Some z | None \<Rightarrow> matcher r xr d)
      else (case matcher r xr d of Some z \<Rightarrow> Some z | None \<Rightarrow> c x))"
    unfolding matcher.simps(10)[of lo hi greedy r x c] Let_def d_def xr_def by (rule refl)
  note prem = "10.prems"(1)[unfolded unf]
  have cxr: "covered T b xr" unfolding xr_def using "10.prems"(2) by (rule covered_clear)
  have stay: "\<exists>y. c y = Some z \<and> covered T (b + outer_len (Rep lo hi greedy r)) y"
    if "c x = Some z" "outer_len (Rep lo hi greedy r) = 0"
    using that "10.prems"(2) by auto
  have iter: "\<exists>y. c y = Some z \<and> covered T (b + outer_len (Rep lo hi greedy r)) y"
    if hi: "hi \<noteq> Some 0" and m: "matcher r xr d = Some z"
       and ih: "\<And>z b. matcher r xr d = Some z \<Longrightarrow> covered T b xr \<Longrightarrow>
                  \<exists>y. d y = Some z \<and> covered T (b + outer_len r) y"
  proof -
    from ih[OF m cxr] obtain y where y: "d y = Some z" "covered T (b + outer_len r) y"
      by auto
    from y(1) have g: "\<not> (lo = 0 \<and> length (rest x) \<le> length (rest y))"
      and m': "matcher (Rep (lo - 1) (rx_dec hi) greedy r) y c = Some z"
      by (auto simp: d_def split: if_splits)
    from "10.IH"(1)[OF hi g m' y(2)] obtain y' where y': "c y' = Some z"
      "covered T (b + outer_len r + outer_len (Rep (lo - 1) (rx_dec hi) greedy r)) y'" by blast
    have "outer_len (Rep lo hi greedy r) \<le> outer_len r + outer_len (Rep (lo - 1) (rx_dec hi) greedy r)"
      using hi by (cases hi; cases lo) (auto simp: rx_dec_def min_def algebra_simps)
    with y' show ?thesis by (intro exI[of _ y']) (auto elim: covered_mono)
  qed
  show ?case
  proof (cases "hi = Some 0")
    case True
    with prem stay show ?thesis by simp
  next
    case hi: False
    show ?thesis
    proof (cases "lo \<noteq> 0")
      case True
      with hi prem have "matcher r xr d = Some z" by simp
      then show ?thesis using iter[OF hi] "10.IH"(2)[OF hi d_def xr_def True] by blast
    next
      case lo: False
      then have ml: "outer_len (Rep lo hi greedy r) = 0" by (simp split: option.splits)
      show ?thesis
      proof (cases greedy)
        case False
        show ?thesis
        proof (cases "c x")
          case None
          with hi lo False prem have "matcher r xr d = Some z" by simp
          then show ?thesis using iter[OF hi] "10.IH"(3)[OF hi d_def xr_def lo False None] by blast
        next
          case (Some w)
          with hi lo False prem have "c x = Some z" by simp
          with ml stay show ?thesis by simp
        qed
      next
        case True
        show ?thesis
        proof (cases "matcher r xr d")
          case None
          with hi lo True prem have "c x = Some z" by simp
          with ml stay show ?thesis by simp
        next
          case (Some w)
          with hi lo True prem have "matcher r xr d = Some z" by simp
          then show ?thesis using iter[OF hi] "10.IH"(4)[OF hi d_def xr_def lo] True by blast
        qed
      qed
    qed
  qed
qed

lemma search_bounds:
  "search r s j = Some (j', y) \<Longrightarrow>
     j \<le> j' \<and> j' + outer_len r + length (rest y) \<le> j + length s \<and>
     (\<forall>n t. caps y n = Some t \<longrightarrow> j' + length t + outer_len r + length (rest y) \<le> j + length s)"
proof (induction s arbitrary: j)
  case Nil
  then obtain z where z: "matcher r \<lparr>rest = [], caps = \<lambda>k. None\<rparr> Some = Some z"
    and eq: "j' = j" "y = z"
    by (auto split: option.splits)
  have "covered 0 0 \<lparr>rest = [], caps = \<lambda>k. None\<rparr>" by (simp add: covered_def)
  from matcher_covered[OF z this] eq show ?case by (auto simp: covered_def)
next
  case (Cons a s)
  show ?case
  proof (cases "matcher r \<lparr>rest = a # s, caps = \<lambda>k. None\<rparr> Some")
    case None
    with Cons.prems have "search r s (Suc j) = Some (j', y)" by simp
    from Cons.IH[OF this] show ?thesis by simp
  next
    case (Some z)
    with Cons.prems have eq: "j' = j" "y = z" by auto
    have "covered (Suc (length s)) 0 \<lparr>rest = a # s, caps = \<lambda>k. None\<rparr>"
      by (simp add: covered_def)
    from matcher_covered[OF Some this] eq show ?thesis by (fastforce simp: covered_def)
  qed
qed

lemma outer_len_HIGHLIGHT_REGEX: "outer_len HIGHLIGHT_REGEX = 4"
  by (simp add: HIGHLIGHT_REGEX_def DOUBLE_EQUALS_REGEX_def MARK_TAG_REGEX_def
      SPAN_TAG_REGEX_def COLOR_def rx_star_def rx_lazy_star_def rx_plus_def rx_opt_def
      rx_space_def rx_digit_def)

lemma exec_bounds:
  assumes "exec content lastIndex = Some m"
  shows "lastIndex \<le> index m" and "index m + length (fullMatch m) \<le> length content"
    and "4 \<le> length (fullMatch m)"
    and "t \<in> {doubleEqual m, markText m, spanText m} \<Longrightarrow>
         (case t of None \<Rightarrow> 0 | Some u \<Rightarrow> length u) + 4 \<le> length (fullMatch m)"
proof -
  from assms obtain j y where le: "lastIndex \<le> length content"
    and s: "search HIGHLIGHT_REGEX (drop lastIndex content) lastIndex = Some (j, y)"
    and m: "m = \<lparr>fullMatch = take (length content - j - length (rest y)) (drop j content),
                doubleEqual = caps y 1, markBg = caps y 2, markText = caps y 3,
                spanBg = caps y 4, spanText = caps y 5, index = j\<rparr>"
    by (auto simp: exec_def split: if_splits option.splits)
  from search_bounds[OF s] le
  have b: "lastIndex \<le> j" "j + 4 + length (rest y) \<le> length content"
    and c: "\<And>n u. caps y n = Some u \<Longrightarrow> j + length u + 4 + length (rest y) \<le> length content"
    by (simp_all add: outer_len_HIGHLIGHT_REGEX)
  from b m show "lastIndex \<le> index m" by simp
  from b m show "index m + length (fullMatch m) \<le> length content" by simp
  from b m show len: "4 \<le> length (fullMatch m)" by simp
  show "(case t of None \<Rightarrow> 0 | Some u \<Rightarrow> length u) + 4 \<le> length (fullMatch m)"
    if "t \<in> {doubleEqual m, markText m, spanText m}"
  proof (cases t)
    case None
    with len show ?thesis by simp
  next
    case (Some u)
    with that m obtain n where "caps y n = Some u" by auto
    from c[OF this] b m Some show ?thesis by simp
  qed
qed

termination extract_loop
proof (relation "measure (\<lambda>(now, content, lastIndex, st). Suc (length content) - lastIndex)")
  show "wf (measure (\<lambda>(now, content, lastIndex, st). Suc (length content) - lastIndex))"
    by simp
next
  fix now :: "nat \<Rightarrow> int" and content lastIndex and st :: "nat \<times> HighlightInfo list" and m
  assume m: "exec content lastIndex = Some m"
  from exec_bounds[OF m]
  show "((now, content, index m + length (fullMatch m), loop_body now content m st),
         (now, content, lastIndex, st))
        \<in> measure (\<lambda>(now, content, lastIndex, st). Suc (length content) - lastIndex)"
    by simp
qed

termination matches
proof (relation "measure (\<lambda>(content, lastIndex). Suc (length content) - lastIndex)")
  show "wf (measure (\<lambda>(content, lastIndex). Suc (length content) - lastIndex))"
    by simp
next
  fix content lastIndex m
  assume m: "exec content lastIndex = Some m"
  from exec_bounds(1-3)[OF m]
  show "((content, index m + length (fullMatch m)), (content, lastIndex))
        \<in> measure (\<lambda>(content, lastIndex). Suc (length content) - lastIndex)"
    by simp
qed

declare extract_loop.simps [simp del]

declare matches.simps [simp del]

subsection \<open>Evaluating the service on a given text\<close>

text \<open>
  On a concrete text the definitions are unfolded by the simplifier. A continuation is left
  alone until it is applied to a state.
\<close>

lemma matcher_cong_weak: "r = r' \<Longrightarrow> x = x' \<Longrightarrow> matcher r x c = matcher r' x' c"
  by simp

lemmas rx_defs =
  HIGHLIGHT_REGEX_def DOUBLE_EQUALS_REGEX_def MARK_TAG_REGEX_def SPAN_TAG_REGEX_def COLOR_def
  rx_star_def rx_lazy_star_def rx_plus_def rx_opt_def rx_space_def rx_digit_def white_space_def
  dquote_def squote_def rx_dec_def line_terminators_def

lemmas extract_defs =
  exec_def Let_def hasHighlights_def js_or_def truthy_def trim_def extractHighlights_def
  extract_loop.simps loop_body_def isDuplicate_def match_text_def match_backgroundColor_def
  new_highlight_def getParagraphOffset_def lastIndexOf_def newline_def js_sort_def
  string_of_int_def

subsection \<open>The paragraph offset\<close>

lemma lastIndexOf_none: "c \<notin> set s \<Longrightarrow> lastIndexOf s c = - 1"
  by (simp add: lastIndexOf_def)

lemma takeWhile_neq_append:
  "c \<notin> set xs \<Longrightarrow> takeWhile (\<lambda>d. d \<noteq> c) (xs @ c # ys) = xs"
  by (induction xs) auto

lemma lastIndexOf_last:
  assumes k: "k < length s" and c: "s ! k = c"
    and after: "\<forall>j. k < j \<and> j < length s \<longrightarrow> s ! j \<noteq> c"
  shows "lastIndexOf s c = int k"
proof -
  have notin: "c \<notin> set (drop (Suc k) s)"
  proof
    assume "c \<in> set (drop (Suc k) s)"
    then obtain i where "i < length (drop (Suc k) s)" "drop (Suc k) s ! i = c"
      by (auto simp: in_set_conv_nth)
    then have "Suc k + i < length s" "s ! (Suc k + i) = c" by auto
    with after show False by auto
  qed
  have s: "s = take k s @ c # drop (Suc k) s"
    using id_take_nth_drop[OF k] c by simp
  have "rev s = rev (drop (Suc k) s) @ c # rev (take k s)"
    by (subst s) simp
  then have "takeWhile (\<lambda>d. d \<noteq> c) (rev s) = rev (drop (Suc k) s)"
    using notin by (simp add: takeWhile_neq_append)
  moreover have "c \<in> set s" using k c by (auto simp: in_set_conv_nth)
  ultimately show ?thesis using k by (simp add: lastIndexOf_def)
qed

lemma getParagraphOffset_first_line:
  assumes "p \<le> length content" and "\<forall>k<p. content ! k \<noteq> newline"
  shows "getParagraphOffset content p = int p"
proof -
  have "newline \<notin> set (take p content)"
    using assms by (auto simp: in_set_conv_nth)
  then show ?thesis by (simp add: getParagraphOffset_def lastIndexOf_none)
qed

lemma getParagraphOffset_after_newline:
  assumes p: "p \<le> length content" and k: "k < p" and nl: "content ! k = newline"
    and after: "\<forall>j. k < j \<and> j < p \<longrightarrow> content ! j \<noteq> newline"
  shows "getParagraphOffset content p = int p - int k"
proof -
  have "lastIndexOf (take p content) newline = int k"
    using assms by (intro lastIndexOf_last) auto
  then show ?thesis by (simp add: getParagraphOffset_def Let_def)
qed

lemma set_insert_by: "set (insert_by cmp x xs) = insert x (set xs)"
  by (induction xs) auto

lemma set_js_sort: "set (js_sort cmp xs) = set xs"
  by (induction xs) (auto simp: js_sort_def set_insert_by)

lemma loop_body_from_match:
  assumes "index m \<le> length content" and "\<forall>h\<in>set (snd st). from_match content h"
  shows "\<forall>h\<in>set (snd (loop_body now content m st)). from_match content h"
  using assms
  by (cases st) (auto simp: loop_body_def from_match_def new_highlight_def)

lemma extract_loop_from_match:
  "\<forall>h\<in>set (snd st). from_match content h \<Longrightarrow>
   \<forall>h\<in>set (snd (extract_loop now content lastIndex st)). from_match content h"
proof (induction now content lastIndex st rule: extract_loop.induct)
  case (1 now content lastIndex st)
  show ?case
  proof (cases "exec content lastIndex")
    case None
    with 1 show ?thesis by (simp add: extract_loop.simps)
  next
    case (Some m)
    from exec_bounds[OF Some] have "index m \<le> length content" by simp
    from loop_body_from_match[OF this "1.prems"]
    have "\<forall>h\<in>set (snd (loop_body now content m st)). from_match content h" .
    from "1.IH"[OF Some this] Some show ?thesis by (simp add: extract_loop.simps)
  qed
qed

text \<open>
  C9. Every occurrence that \<open>extractHighlights\<close> returns for a text has a position \<open>p\<close> inside
  the text; if no newline stands before \<open>p\<close>, its paragraph offset is \<open>p\<close>; and if \<open>k\<close> is
  the index of the last newline before \<open>p\<close>, its paragraph offset is \<open>p - k\<close>.
\<close>

theorem C9_paragraphOffset:
  assumes "h \<in> set (extractHighlights now content)"
  shows "\<exists>p. h_position h = Some (int p) \<and> p \<le> length content \<and>
           ((\<forall>k<p. content ! k \<noteq> newline) \<longrightarrow> h_paragraphOffset h = Some (int p)) \<and>
           (\<forall>k<p. content ! k = newline \<and> (\<forall>j. k < j \<and> j < p \<longrightarrow> content ! j \<noteq> newline) \<longrightarrow>
                  h_paragraphOffset h = Some (int p - int k))"
proof -
  from assms have "h \<in> set (snd (extract_loop now content 0 (0, [])))"
    by (simp add: extractHighlights_def set_js_sort)
  moreover have "\<forall>h\<in>set (snd (extract_loop now content 0 (0, []))). from_match content h"
    by (rule extract_loop_from_match) simp
  ultimately obtain m :: RegexMatch where m: "index m \<le> length content"
    "h_position h = Some (int (index m))"
    "h_paragraphOffset h = Some (getParagraphOffset content (index m))"
    by (auto simp: from_match_def)
  show ?thesis
  proof (intro exI[of _ "index m"] conjI allI impI)
    show "h_position h = Some (int (index m))" by (rule m(2))
    show "index m \<le> length content" by (rule m(1))
    show "h_paragraphOffset h = Some (int (index m))" if "\<forall>k<index m. content ! k \<noteq> newline"
      using that m by (simp add: getParagraphOffset_first_line)
    show "h_paragraphOffset h = Some (int (index m) - int k)"
      if "k < index m"
        "content ! k = newline \<and> (\<forall>j. k < j \<and> j < index m \<longrightarrow> content ! j \<noteq> newline)" for k
      using that m by (simp add: getParagraphOffset_after_newline)
  qed
qed

text \<open>
  The text \<^verbatim>\<open>==a==\n ==b==\<close>: the first occurrence stands at 0 on the first line, the
  second at 7, after the newline at 5, so its offset is \<open>7 - 5\<close>.
\<close>

theorem C9_paragraphOffset_witness:
  "\<exists>h1 h2. extractHighlights (\<lambda>k. 0) (''==a=='' @ [newline] @ '' ==b=='') = [h1, h2] \<and>
     h_position h1 = Some 0 \<and> h_paragraphOffset h1 = Some 0 \<and>
     h_position h2 = Some 7 \<and> (''==a=='' @ [newline] @ '' ==b=='') ! 5 = newline \<and>
     h_paragraphOffset h2 = Some (7 - 5)"
proof -
  define c where "c = ''==a=='' @ [newline] @ '' ==b==''"
  let ?now = "\<lambda>k::nat. 0::int"
  obtain h1 h2 where ev: "extractHighlights ?now c = [h1, h2]"
    and pos: "h_position h1 = Some 0" "h_position h2 = Some 7"
    unfolding c_def by (simp add: rx_defs extract_defs cong: matcher_cong_weak)
  have "h1 \<in> set (extractHighlights ?now c)" by (simp add: ev)
  from C9_paragraphOffset[OF this] pos(1) have o1: "h_paragraphOffset h1 = Some 0"
    by auto
  have "h2 \<in> set (extractHighlights ?now c)" by (simp add: ev)
  from C9_paragraphOffset[OF this] pos(2)
  have r: "\<forall>k<7. c ! k = newline \<and> (\<forall>j. k < j \<and> j < 7 \<longrightarrow> c ! j \<noteq> newline) \<longrightarrow>
                h_paragraphOffset h2 = Some (7 - int k)"
    by auto
  have nl: "c ! 5 = newline" by (simp add: c_def)
  have after: "\<forall>j. 5 < j \<and> j < 7 \<longrightarrow> c ! j \<noteq> newline"
  proof (intro allI impI)
    fix j :: nat assume "5 < j \<and> j < 7"
    then have "j = 6" by arith
    then show "c ! j \<noteq> newline" by (simp add: c_def newline_def)
  qed
  have "(5::nat) < 7" by simp
  from r[rule_format, OF this] nl after have "h_paragraphOffset h2 = Some (7 - 5)" by simp
  with ev pos o1 nl show ?thesis unfolding c_def by blast
qed

text \<open>
  C1. \<open>hasHighlights\<close> looks at the first match only. In \<^verbatim>\<open>==== ==a==\<close> the first match
  is \<^verbatim>\<open>====\<close>, whose captured text is empty, so the answer is no, although the
  double-equals pattern matches again at position 5 with the text \<^verbatim>\<open>a\<close>, which
  \<open>extractHighlights\<close> returns.
\<close>

theorem C1_hasHighlights_first_match_only:
  "hasHighlights ''==== ==a=='' = False \<and>
   exec ''==== ==a=='' 0 =
     Some \<lparr>fullMatch = ''===='', doubleEqual = Some [], markBg = None, markText = None,
           spanBg = None, spanText = None, index = 0\<rparr> \<and>
   exec ''==== ==a=='' 4 =
     Some \<lparr>fullMatch = ''==a=='', doubleEqual = Some ''a'', markBg = None, markText = None,
           spanBg = None, spanText = None, index = 5\<rparr> \<and>
   trim ''a'' = ''a'' \<and>
   map h_text (extractHighlights (\<lambda>k. 0) ''==== ==a=='') = [''a'']"
  by (simp add: rx_defs extract_defs cong: matcher_cong_weak)

text \<open>
  C2. For the mark pattern the text is the captured group as it stands: in
  \<^verbatim>\<open><mark> </mark>\<close> it is one blank, which \<open>extractHighlights\<close> keeps as an occurrence
  (and \<open>hasHighlights\<close>, which trims before it tests, does not count); in
  \<^verbatim>\<open><mark> a </mark>\<close> the text keeps its blanks.
\<close>

theorem C2_mark_text_not_trimmed:
  "map h_text (extractHighlights (\<lambda>k. 0) ''<mark> </mark>'') = ['' ''] \<and>
   trim '' '' = [] \<and>
   hasHighlights ''<mark> </mark>'' = False \<and>
   map h_text (extractHighlights (\<lambda>k. 0) ''<mark> a </mark>'') = ['' a ''] \<and>
   trim '' a '' = ''a''"
  by (simp add: rx_defs extract_defs cong: matcher_cong_weak)

subsection \<open>Duplicates\<close>

lemma mset_insert_by: "mset (insert_by cmp x xs) = add_mset x (mset xs)"
  by (induction xs) auto

lemma mset_js_sort: "mset (js_sort cmp xs) = mset xs"
  by (induction xs) (auto simp: js_sort_def mset_insert_by)

lemma length_filter_js_sort: "length (filter P (js_sort cmp xs)) = length (filter P xs)"
proof -
  have "mset (filter P (js_sort cmp xs)) = mset (filter P xs)"
    by (simp add: mset_js_sort)
  then show ?thesis by (metis size_mset)
qed

lemma extract_loop_foldl:
  "extract_loop now content lastIndex st =
     foldl (\<lambda>st m. loop_body now content m st) st (matches content lastIndex)"
proof (induction now content lastIndex st rule: extract_loop.induct)
  case (1 now content lastIndex st)
  show ?case
  proof (cases "exec content lastIndex")
    case None
    then show ?thesis by (simp add: extract_loop.simps matches.simps)
  next
    case (Some m)
    from "1.IH"[OF Some] Some show ?thesis
      by (subst extract_loop.simps, subst matches.simps) simp
  qed
qed

lemma extractHighlights_loop_state:
  "extractHighlights now content =
     js_sort (\<lambda>a b. (case h_position a of None \<Rightarrow> 0 | Some p \<Rightarrow> p)
                   - (case h_position b of None \<Rightarrow> 0 | Some p \<Rightarrow> p))
       (snd (loop_state now content (matches content 0)))"
  by (simp add: extractHighlights_def extract_loop_foldl loop_state_def)

lemma js_or_cases: "js_or a b = a \<or> js_or a b = b"
  by (simp add: js_or_def)

lemma match_text_bound:
  assumes "exec content lastIndex = Some m"
  shows "length (match_text m) + 4 \<le> length (fullMatch m)"
proof -
  let ?t = "js_or (js_or (doubleEqual m) (markText m)) (spanText m)"
  have "?t \<in> {doubleEqual m, markText m, spanText m}"
    using js_or_cases[of "js_or (doubleEqual m) (markText m)" "spanText m"]
      js_or_cases[of "doubleEqual m" "markText m"] by auto
  from exec_bounds(4)[OF assms this] show ?thesis
    by (simp add: match_text_def split: option.splits)
qed

lemma matches_ordered:
  "(\<forall>m\<in>set (matches content lastIndex).
      lastIndex \<le> index m \<and> length (match_text m) + 4 \<le> length (fullMatch m)) \<and>
   sorted_wrt (\<lambda>a b. index a + length (fullMatch a) \<le> index b) (matches content lastIndex)"
proof (induction content lastIndex rule: matches.induct)
  case (1 content lastIndex)
  show ?case
  proof (cases "exec content lastIndex")
    case None
    then show ?thesis by (simp add: matches.simps)
  next
    case (Some m)
    have ms: "matches content lastIndex = m # matches content (index m + length (fullMatch m))"
      by (subst matches.simps) (simp add: Some)
    from exec_bounds(1)[OF Some] match_text_bound[OF Some] "1.IH"[OF Some]
    show ?thesis unfolding ms by fastforce
  qed
qed

lemma isDuplicate_iff:
  "isDuplicate highlights m \<longleftrightarrow>
     (\<exists>h\<in>set highlights. \<exists>p. h_position h = Some p \<and> \<bar>p - int (index m)\<bar> < 10 \<and>
        h_text h = match_text m)"
  by (auto simp: isDuplicate_def list_ex_iff split: option.splits)

lemma snd_loop_body:
  "snd (loop_body now content m st) =
     (if \<not> isDuplicate (snd st) m \<and> match_text m \<noteq> []
      then snd st @ [new_highlight now (fst st) content m] else snd st)"
  by (cases st) (simp add: loop_body_def)

lemma foldl_loop_body_appends:
  "\<exists>ys. snd (foldl (\<lambda>st m. loop_body now content m st) st ms) = snd st @ ys \<and>
        (\<forall>h\<in>set ys. \<exists>m\<in>set ms. h_position h = Some (int (index m)) \<and> h_text h = match_text m)"
proof (induction ms arbitrary: st)
  case Nil
  then show ?case by simp
next
  case (Cons m ms)
  from Cons.IH[of "loop_body now content m st"] obtain ys where
    ys: "snd (foldl (\<lambda>st m. loop_body now content m st) (loop_body now content m st) ms) =
           snd (loop_body now content m st) @ ys"
    "\<forall>h\<in>set ys. \<exists>m\<in>set ms. h_position h = Some (int (index m)) \<and> h_text h = match_text m"
    by blast
  show ?case
  proof (cases "\<not> isDuplicate (snd st) m \<and> match_text m \<noteq> []")
    case True
    then have "snd (loop_body now content m st) = snd st @ [new_highlight now (fst st) content m]"
      by (simp add: snd_loop_body)
    with ys show ?thesis
      by (intro exI[of _ "new_highlight now (fst st) content m # ys"])
        (auto simp: new_highlight_def)
  next
    case False
    then have "snd (loop_body now content m st) = snd st" by (simp add: snd_loop_body)
    with ys show ?thesis by (intro exI[of _ ys]) auto
  qed
qed

lemma collapse_to_one:
  assumes ms: "matches content 0 = pre @ m1 # mid @ m2 # post"
    and t1: "match_text m1 \<noteq> []" and t2: "match_text m2 = match_text m1"
    and near: "int (index m2) - int (index m1) < 10"
  shows "length (filter (\<lambda>h. h_position h = Some (int (index m1)) \<or>
                              h_position h = Some (int (index m2)))
                   (snd (loop_state now content (matches content 0)))) = 1"
proof -
  let ?body = "\<lambda>st m. loop_body now content m st"
  let ?Q = "\<lambda>h. h_position h = Some (int (index m1)) \<or> h_position h = Some (int (index m2))"
  let ?len = "\<lambda>m::RegexMatch. length (fullMatch m)"
  from matches_ordered[of content 0]
  have bnd: "\<forall>m\<in>set (pre @ m1 # mid @ m2 # post). length (match_text m) + 4 \<le> ?len m"
    and srt: "sorted_wrt (\<lambda>a b. index a + ?len a \<le> index b) (pre @ m1 # mid @ m2 # post)"
    unfolding ms by auto
  from bnd t1 have len1: "5 \<le> ?len m1" by (cases "match_text m1") auto
  from srt have pre1: "\<forall>a\<in>set pre. index a + ?len a \<le> index m1"
    and mid1: "\<forall>b\<in>set mid. index m1 + ?len m1 \<le> index b"
    and m12: "index m1 + ?len m1 \<le> index m2"
    and mid2: "\<forall>b\<in>set mid. index b + ?len b \<le> index m2"
    and post1: "\<forall>b\<in>set post. index m1 + ?len m1 \<le> index b"
    and post2: "\<forall>b\<in>set post. index m2 + ?len m2 \<le> index b"
    by (auto simp: sorted_wrt_append)
  have len4: "4 \<le> ?len m" if "m \<in> set pre \<or> m \<in> set mid \<or> m \<in> set post" for m
  proof -
    from that bnd have "length (match_text m) + 4 \<le> ?len m" by auto
    then show "4 \<le> ?len m" by simp
  qed
  \<comment> \<open>the four stretches of the loop\<close>
  define st0 where "st0 = foldl ?body (0, []) pre"
  define st1 where "st1 = loop_body now content m1 st0"
  define st2 where "st2 = foldl ?body st1 mid"
  define st3 where "st3 = loop_body now content m2 st2"
  define st4 where "st4 = foldl ?body st3 post"
  have final: "loop_state now content (matches content 0) = st4"
    by (simp add: loop_state_def ms st0_def st1_def st2_def st3_def st4_def)
  from foldl_loop_body_appends[of now content "(0, [])" pre] obtain A0 where
    A0: "snd st0 = A0"
    "\<forall>h\<in>set A0. \<exists>m\<in>set pre. h_position h = Some (int (index m)) \<and> h_text h = match_text m"
    by (auto simp: st0_def)
  from foldl_loop_body_appends[of now content st1 mid] obtain Ymid where
    Ymid: "snd st2 = snd st1 @ Ymid"
    "\<forall>h\<in>set Ymid. \<exists>m\<in>set mid. h_position h = Some (int (index m)) \<and> h_text h = match_text m"
    by (auto simp: st2_def)
  from foldl_loop_body_appends[of now content st3 post] obtain Ypost where
    Ypost: "snd st4 = snd st3 @ Ypost"
    "\<forall>h\<in>set Ypost. \<exists>m\<in>set post. h_position h = Some (int (index m)) \<and> h_text h = match_text m"
    by (auto simp: st4_def)
  have qA0: "filter ?Q A0 = []"
  proof -
    have "\<not> ?Q h" if "h \<in> set A0" for h
    proof -
      from A0(2) that obtain m where m: "m \<in> set pre" "h_position h = Some (int (index m))" by blast
      from m(1) pre1 have "index m + ?len m \<le> index m1" by blast
      moreover from m(1) have "4 \<le> ?len m" by (simp add: len4)
      ultimately have "index m < index m1" "index m < index m2" using m12 by simp_all
      with m(2) show ?thesis by simp
    qed
    then show ?thesis by (simp add: filter_empty_conv)
  qed
  have qmid: "filter ?Q Ymid = []"
  proof -
    have "\<not> ?Q h" if "h \<in> set Ymid" for h
    proof -
      from Ymid(2) that obtain m where m: "m \<in> set mid" "h_position h = Some (int (index m))" by blast
      from m(1) mid1 mid2 have "index m1 + ?len m1 \<le> index m" "index m + ?len m \<le> index m2"
        by blast+
      moreover from m(1) have "4 \<le> ?len m" by (simp add: len4)
      ultimately have "index m1 < index m" "index m < index m2" using len1 by simp_all
      with m(2) show ?thesis by simp
    qed
    then show ?thesis by (simp add: filter_empty_conv)
  qed
  have qpost: "filter ?Q Ypost = []"
  proof -
    have "\<not> ?Q h" if "h \<in> set Ypost" for h
    proof -
      from Ypost(2) that obtain m where m: "m \<in> set post" "h_position h = Some (int (index m))" by blast
      from m(1) post1 post2 have "index m1 + ?len m1 \<le> index m" "index m2 + ?len m2 \<le> index m"
        by blast+
      moreover from bnd have "length (match_text m2) + 4 \<le> ?len m2" by simp
      ultimately have "index m1 < index m" "index m2 < index m" using len1 by simp_all
      with m(2) show ?thesis by simp
    qed
    then show ?thesis by (simp add: filter_empty_conv)
  qed
  have h1: "?Q (new_highlight now tick content m1)" "?Q (new_highlight now tick content m2)" for tick
    by (simp_all add: new_highlight_def)
  show ?thesis
  proof (cases "isDuplicate A0 m1")
    case False
    \<comment> \<open>the first match is accepted, so the second is its duplicate\<close>
    let ?h1 = "new_highlight now (fst st0) content m1"
    from False t1 A0(1) have s1: "snd st1 = A0 @ [?h1]"
      by (simp add: st1_def snd_loop_body)
    have "isDuplicate (snd st2) m2"
      unfolding isDuplicate_iff
    proof (intro bexI[of _ ?h1] exI[of _ "int (index m1)"] conjI)
      show "h_position ?h1 = Some (int (index m1))" by (simp add: new_highlight_def)
      from m12 near show "\<bar>int (index m1) - int (index m2)\<bar> < 10" by simp
      from t2 show "h_text ?h1 = match_text m2" by (simp add: new_highlight_def)
      show "?h1 \<in> set (snd st2)" by (simp add: Ymid(1) s1)
    qed
    then have "snd st3 = snd st2" by (simp add: st3_def snd_loop_body)
    with Ypost(1) Ymid(1) s1 have "snd st4 = A0 @ [?h1] @ Ymid @ Ypost" by simp
    with qA0 qmid qpost h1(1) show ?thesis unfolding final by simp
  next
    case True
    \<comment> \<open>the first match is dropped; nothing accepted is near enough to the second\<close>
    let ?h2 = "new_highlight now (fst st2) content m2"
    from True A0(1) have s1: "snd st1 = A0" by (simp add: st1_def snd_loop_body)
    have "\<not> isDuplicate (snd st2) m2"
      unfolding isDuplicate_iff
    proof (intro notI, elim bexE exE conjE)
      fix h p
      assume h: "h \<in> set (snd st2)" and p: "h_position h = Some p"
        and cl: "\<bar>p - int (index m2)\<bar> < 10" and same: "h_text h = match_text m2"
      from h Ymid(1) s1 A0(2) Ymid(2) obtain m where
        m: "m \<in> set pre \<or> m \<in> set mid" "h_position h = Some (int (index m))"
           "h_text h = match_text m" by auto
      from m(3) same t2 t1 have "match_text m \<noteq> []" by simp
      moreover from m(1) bnd have "length (match_text m) + 4 \<le> ?len m" by auto
      ultimately have len: "5 \<le> ?len m" by (cases "match_text m") auto
      from m(2) p have pm: "p = int (index m)" by simp
      from m(1) show False
      proof
        assume "m \<in> set pre"
        with pre1 have "index m + ?len m \<le> index m1" by blast
        with len len1 m12 cl pm show False by simp
      next
        assume "m \<in> set mid"
        with mid1 mid2 have "index m1 + ?len m1 \<le> index m" "index m + ?len m \<le> index m2"
          by blast+
        with len len1 near show False by simp
      qed
    qed
    with t1 t2 have "snd st3 = snd st2 @ [?h2]" by (simp add: st3_def snd_loop_body)
    with Ypost(1) Ymid(1) s1 have "snd st4 = A0 @ Ymid @ [?h2] @ Ypost" by simp
    with qA0 qmid qpost h1(2) show ?thesis unfolding final by simp
  qed
qed

text \<open>
  C5. Let \<open>m\<close> be a match of the call whose resolved text is not empty and \<open>pre\<close> the matches
  before it. After the round for \<open>m\<close> the list of accepted occurrences is the list as it
  was if one of its occurrences starts fewer than 10 characters from \<open>m\<close> and has the very
  text of \<open>m\<close>, and is that list with the occurrence of \<open>m\<close> at its end otherwise. And if a
  later match \<open>m'\<close> of the call has the same text and starts fewer than 10 characters after
  \<open>m\<close>, the result of the call has exactly one occurrence that starts where \<open>m\<close> or \<open>m'\<close>
  starts.
\<close>

theorem C5_duplicates_dropped:
  assumes "matches content 0 = pre @ m # post" and "match_text m \<noteq> []"
  shows "snd (loop_state now content (pre @ [m])) =
           (if \<exists>h\<in>set (snd (loop_state now content pre)).
                 \<exists>p. h_position h = Some p \<and> \<bar>p - int (index m)\<bar> < 10 \<and> h_text h = match_text m
            then snd (loop_state now content pre)
            else snd (loop_state now content pre) @
                   [new_highlight now (fst (loop_state now content pre)) content m]) \<and>
         (\<forall>mid m' post'.
            post = mid @ m' # post' \<and> match_text m' = match_text m \<and>
            int (index m') - int (index m) < 10 \<longrightarrow>
            length (filter (\<lambda>h. h_position h = Some (int (index m)) \<or>
                                 h_position h = Some (int (index m')))
                      (extractHighlights now content)) = 1)"
proof (intro conjI allI impI)
  show "snd (loop_state now content (pre @ [m])) =
           (if \<exists>h\<in>set (snd (loop_state now content pre)).
                 \<exists>p. h_position h = Some p \<and> \<bar>p - int (index m)\<bar> < 10 \<and> h_text h = match_text m
            then snd (loop_state now content pre)
            else snd (loop_state now content pre) @
                   [new_highlight now (fst (loop_state now content pre)) content m])"
    using assms(2) by (simp add: loop_state_def snd_loop_body isDuplicate_iff)
next
  fix mid m' post'
  assume a: "post = mid @ m' # post' \<and> match_text m' = match_text m \<and>
            int (index m') - int (index m) < 10"
  with assms(1) have "matches content 0 = pre @ m # mid @ m' # post'" by simp
  from collapse_to_one[OF this assms(2)] a
  show "length (filter (\<lambda>h. h_position h = Some (int (index m)) \<or>
                                 h_position h = Some (int (index m')))
                      (extractHighlights now content)) = 1"
    by (simp add: extractHighlights_loop_state length_filter_js_sort)
qed

text \<open>
  The text \<^verbatim>\<open>==a====a==\<close> has the matches \<^verbatim>\<open>==a==\<close> at 0 and at 5; the first is
  accepted, the second dropped.
\<close>

theorem C5_duplicates_dropped_witness:
  "\<exists>m1 m2. matches ''==a====a=='' 0 = [] @ m1 # [m2] \<and>
     match_text m1 = ''a'' \<and> match_text m2 = ''a'' \<and> index m1 = 0 \<and> index m2 = 5 \<and>
     snd (loop_state (\<lambda>k. 0) ''==a====a=='' ([] @ [m1])) =
       [new_highlight (\<lambda>k. 0) 0 ''==a====a=='' m1] \<and>
     length (filter (\<lambda>h. h_position h = Some 0 \<or> h_position h = Some 5)
               (extractHighlights (\<lambda>k. 0) ''==a====a=='')) = 1"
proof -
  define c where "c = ''==a====a==''"
  let ?now = "\<lambda>k::nat. 0::int"
  obtain m1 m2 where ms: "matches c 0 = [] @ m1 # [m2]"
    and t: "match_text m1 = ''a''" "match_text m2 = ''a''"
    and i: "index m1 = 0" "index m2 = 5"
    unfolding c_def by (simp add: matches.simps rx_defs extract_defs cong: matcher_cong_weak)
  from t have ne: "match_text m1 \<noteq> []" by simp
  have st: "loop_state ?now c [] = (0, [])" by (simp add: loop_state_def)
  note c5 = C5_duplicates_dropped[OF ms ne, of ?now]
  from c5 have a: "snd (loop_state ?now c ([] @ [m1])) = [new_highlight ?now 0 c m1]"
    by (simp add: st)
  have "[m2] = [] @ m2 # [] \<and> match_text m2 = match_text m1 \<and> int (index m2) - int (index m1) < 10"
    by (simp add: t i)
  from c5[THEN conjunct2, rule_format, OF this]
  have "length (filter (\<lambda>h. h_position h = Some (int (index m1)) \<or>
                                 h_position h = Some (int (index m2)))
                      (extractHighlights ?now c)) = 1" .
  then have "length (filter (\<lambda>h. h_position h = Some 0 \<or> h_position h = Some 5)
               (extractHighlights ?now c)) = 1"
    by (simp add: i)
  with ms t i a show ?thesis unfolding c_def by blast
qed

section \<open>Properties of the comment store\<close>

subsection \<open>Entries\<close>

lemma map_of_put: "map_of (put k v es) = (map_of es)(k \<mapsto> v)"
  by (induction es) (auto simp: fun_eq_iff)


lemma set_put_subset: "set (put k v es) \<subseteq> insert (k, v) (set es)"
  by (induction es) auto

lemma keys_put: "map fst (put k v es) = (if k \<in> set (map fst es) then map fst es else map fst es @ [k])"
  by (induction es) auto

lemma distinct_put: "distinct (map fst es) \<Longrightarrow> distinct (map fst (put k v es))"
  by (simp add: keys_put)

lemma length_put: "length (put k v es) = (if k \<in> set (map fst es) then length es else Suc (length es))"
  by (induction es) auto

lemma map_of_insert_index:
  "map_of es k = None \<Longrightarrow> map_of (insert_index k v es) = (map_of es)(k \<mapsto> v)"
  by (induction es) (auto simp: fun_eq_iff split: if_splits)


lemma set_insert_index: "set (insert_index k v es) = insert (k, v) (set es)"
  by (induction es) auto

lemma map_of_obj_set: "map_of (obj_set k v ob) = (map_of ob)(k \<mapsto> v)"
  by (auto simp: obj_set_def map_of_put map_of_insert_index)


lemma set_obj_set_subset: "set (obj_set k v ob) \<subseteq> insert (k, v) (set ob)"
  using set_put_subset[of k v ob] by (auto simp: obj_set_def set_insert_index)

lemma map_of_remove: "map_of (remove k es) = (map_of es)(k := None)"
  by (induction es) (auto simp: remove_def fun_eq_iff)

lemma set_remove: "set (remove k es) = {e \<in> set es. fst e \<noteq> k}"
  by (auto simp: remove_def)

lemma saveComments_fields [simp]:
  "data (saveComments s) = data s"
  "fileCommentsData (saveComments s) = fileCommentsData s"
  "comments (saveComments s) = comments s"
  "fileComments (saveComments s) = fileComments s"
  "commentCache (saveComments s) = commentCache s"
  "disk (saveComments s) = disk s @ [payload s]"
  by (simp_all add: saveComments_def)

lemmas store_defs =
  new_CommentStore_def loadComments_def loadData_def saveComments_def payload_def new_Map_def
  fromEntries_def obj_set_def is_array_index_def file_records_def getFileComments_def
  getFileOnlyComments_def getCommentsByParagraphId_def hasParagraphComments_def js_sort_def
  virtual_first_def is_virtual_def addComment_def with_paragraphId_def write_record_def
  js_get_def Object_prototype_names_def carried_def added_def sample_loaded_def listed_ids_def
  updateComment_def removeComment_def cleanupComments_def cleanup_keys_def remove_def
  truthy_def Let_def string_of_int_def sample_highlight_def sample_file_comment_def
  keyed_by_id_def

subsection \<open>Adding and removing a highlight\<close>


lemma file_records_saveComments [simp]: "file_records (saveComments s) path = file_records s path"
  by (simp add: file_records_def saveComments_def)

lemma js_get_iff:
  "js_get ob k = Own v \<longleftrightarrow> map_of ob k = Some v"
  "js_get ob k = Missing \<longleftrightarrow> map_of ob k = None \<and> k \<notin> set Object_prototype_names"
  "js_get ob k = Inherited \<longleftrightarrow> map_of ob k = None \<and> k \<in> set Object_prototype_names"
  by (auto simp: js_get_def split: option.splits)

lemma file_records_Own: "js_get (data s) path = Own ob \<Longrightarrow> file_records s path = ob"
  by (simp add: js_get_iff file_records_def)

lemma file_records_Missing: "js_get (data s) path = Missing \<Longrightarrow> file_records s path = []"
  by (simp add: js_get_iff file_records_def)

lemma write_record_Done:
  assumes "write_record path h ob s = Done s1"
  shows "file_records s1 path = obj_set (hc_id h) h ob"
    and "p \<noteq> path \<Longrightarrow> file_records s1 p = file_records s p"
  using assms
  by (auto simp: write_record_def file_records_def map_of_obj_set split: if_splits)

lemma write_record_Polluted:
  assumes "write_record path h ob s = Polluted s1"
  shows "file_records s1 p = file_records s p"
  using assms
  by (auto simp: write_record_def split: if_splits)



lemma keyed_by_id_obj_set:
  "keyed_by_id ob \<Longrightarrow> hc_id h = k \<Longrightarrow> keyed_by_id (obj_set k h ob)"
  using set_obj_set_subset[of k h ob] by (auto simp: keyed_by_id_def list_all_iff)

lemma keyed_by_id_remove: "keyed_by_id ob \<Longrightarrow> keyed_by_id (remove k ob)"
  by (auto simp: keyed_by_id_def list_all_iff set_remove)

text \<open>
  The records of every document are stored under their ids in a new store, and stay so
  when a highlight is added, commented on or removed. Storage that is loaded need not
  be so.
\<close>

lemma keyed_by_id_new: "keyed_by_id (file_records (new_CommentStore d) p)"
  by (simp add: keyed_by_id_def file_records_def new_CommentStore_def)

lemma keyed_by_id_write_record:
  assumes "keyed_by_id (file_records s p)" and "p = path \<longrightarrow> keyed_by_id ob"
    and "carried (write_record path h ob s) = Some s1"
  shows "keyed_by_id (file_records s1 p)"
proof (cases "write_record path h ob s")
  case (Done s')
  with assms(3) have s1: "s' = s1" by (simp add: carried_def)
  show ?thesis
  proof (cases "p = path")
    case True
    with assms(2) write_record_Done(1)[OF Done] s1 show ?thesis
      by (simp add: keyed_by_id_obj_set)
  next
    case False
    with assms(1) write_record_Done(2)[OF Done] s1 show ?thesis by simp
  qed
next
  case (Polluted s')
  with assms(3) have "s' = s1" by (simp add: carried_def)
  with assms(1) write_record_Polluted[OF Polluted] show ?thesis by simp
next
  case Outside
  with assms(3) show ?thesis by (simp add: carried_def)
qed

lemma keyed_by_id_addComment:
  assumes keyed: "keyed_by_id (file_records s p)"
    and s1: "carried (fst (addComment view now rnd path h s)) = Some s1"
  shows "keyed_by_id (file_records s1 p)"
proof (cases "js_get (data s) path")
  case (Own ob)
  then have "file_records s path = ob" by (rule file_records_Own)
  with keyed have "p = path \<longrightarrow> keyed_by_id ob" by auto
  moreover from Own s1
  have "carried (write_record path (fst (with_paragraphId view now rnd path h)) ob s) = Some s1"
    by (simp add: addComment_def Let_def split_beta)
  ultimately show ?thesis using keyed by (rule keyed_by_id_write_record[rotated])
next
  case Inherited
  with s1 show ?thesis by (simp add: addComment_def Let_def split_beta carried_def)
next
  case Missing
  let ?s = "s\<lparr>data := obj_set path [] (data s)\<rparr>"
  from Missing have "file_records s path = []" by (rule file_records_Missing)
  with keyed have k: "keyed_by_id (file_records ?s p)"
    by (cases "p = path") (simp_all add: file_records_def map_of_obj_set keyed_by_id_def)
  have e: "p = path \<longrightarrow> keyed_by_id []" by (simp add: keyed_by_id_def)
  from Missing s1
  have "carried (write_record path (fst (with_paragraphId view now rnd path h)) [] ?s) = Some s1"
    by (simp add: addComment_def Let_def split_beta)
  with k e show ?thesis by (rule keyed_by_id_write_record)
qed

lemma keyed_by_id_removeComment:
  assumes keyed: "keyed_by_id (file_records s p)"
    and s1: "carried (removeComment path h s) = Some s1"
  shows "keyed_by_id (file_records s1 p)"
proof (cases "js_get (data s) path")
  case (Own ob)
  then have ob: "map_of (data s) path = Some ob" by (simp add: js_get_iff)
  show ?thesis
  proof (cases "js_get ob (hc_id h) = Missing")
    case True
    with Own s1 keyed show ?thesis by (simp add: removeComment_def carried_def)
  next
    case False
    let ?ob = "remove (hc_id h) ob"
    let ?d = "if length (map fst ?ob) = 0 then remove path (data s) else obj_set path ?ob (data s)"
    from False Own s1 have s1': "s1 = saveComments (s\<lparr>data := ?d\<rparr>)"
      by (cases "js_get ob (hc_id h)") (simp_all add: removeComment_def carried_def Let_def)
    show ?thesis
    proof (cases "p = path")
      case True
      with keyed ob have "keyed_by_id ob" by (simp add: file_records_def)
      then have "keyed_by_id ?ob" by (rule keyed_by_id_remove)
      with True show ?thesis unfolding s1'
        by (auto simp: file_records_def map_of_obj_set map_of_remove keyed_by_id_def)
    next
      case False
      with keyed show ?thesis unfolding s1'
        by (auto simp: file_records_def map_of_obj_set map_of_remove)
    qed
  qed
next
  case Inherited
  with s1 show ?thesis by (simp add: removeComment_def carried_def)
next
  case Missing
  with s1 keyed show ?thesis by (simp add: removeComment_def carried_def)
qed

lemma keyed_by_id_updateComment:
  assumes keyed: "keyed_by_id (file_records s p)"
    and s1: "carried (updateComment now path highlightId content s) = Some s1"
  shows "keyed_by_id (file_records s1 p)"
proof (cases "js_get (data s) path")
  case (Own ob)
  then have ob: "map_of (data s) path = Some ob" by (simp add: js_get_iff)
  show ?thesis
  proof (cases "js_get ob highlightId")
    case (Own h')
    then have "(highlightId, h') \<in> set ob" by (simp add: js_get_iff map_of_SomeD)
    show ?thesis
    proof (cases "p = path")
      case True
      with keyed ob have k: "keyed_by_id ob" by (simp add: file_records_def)
      with \<open>(highlightId, h') \<in> set ob\<close> have "hc_id h' = highlightId"
        by (auto simp: keyed_by_id_def list_all_iff)
      with True Own \<open>js_get (data s) path = Own ob\<close> s1 k show ?thesis
        by (auto simp: updateComment_def Let_def carried_def file_records_def map_of_obj_set
            keyed_by_id_obj_set)
    next
      case False
      with Own \<open>js_get (data s) path = Own ob\<close> s1 keyed show ?thesis
        by (auto simp: updateComment_def Let_def carried_def file_records_def map_of_obj_set)
    qed
  next
    case Inherited
    with \<open>js_get (data s) path = Own ob\<close> s1 keyed show ?thesis
      by (auto simp: updateComment_def carried_def)
  next
    case Missing
    with \<open>js_get (data s) path = Own ob\<close> s1 keyed show ?thesis
      by (auto simp: updateComment_def carried_def)
  qed
next
  case Inherited
  with s1 show ?thesis by (simp add: updateComment_def carried_def)
next
  case Missing
  with s1 keyed show ?thesis by (simp add: updateComment_def carried_def)
qed




subsection \<open>Cleaning up\<close>

text \<open>
  C3. \<open>cleanupComments\<close> deletes the keys from \<open>data\<close> and from \<open>fileCommentsData\<close>, but the
  file comments are read from, and saved from, the map \<open>fileComments\<close>, which it leaves
  alone. A store loaded with one highlight and one file comment for \<^verbatim>\<open>gone.md\<close> and
  cleaned up against the empty set of files loses the highlight, keeps answering the file
  comment, and saves it again.
\<close>

theorem C3_cleanup_keeps_file_comments:
  "let s0 = loadComments (new_CommentStore
              [\<lparr>sd_comments = Some [(''gone.md'', [(''h1'', sample_highlight ''h1'' 3 None)])],
                sd_fileComments = Some [(''gone.md'', [sample_file_comment])]\<rparr>]);
       s1 = cleanupComments {} s0
   in getFileComments s0 ''gone.md'' = [sample_highlight ''h1'' 3 None] \<and>
      getFileOnlyComments s0 ''gone.md'' = [sample_file_comment] \<and>
      getFileComments s1 ''gone.md'' = [] \<and>
      data s1 = [] \<and> fileCommentsData s1 = [] \<and>
      getFileOnlyComments s1 ''gone.md'' = [sample_file_comment] \<and>
      disk s1 = disk s0 @
        [\<lparr>sd_comments = Some [], sd_fileComments = Some [(''gone.md'', [sample_file_comment])]\<rparr>]"
  by (simp add: store_defs)

subsection \<open>Commenting on a highlight\<close>




subsection \<open>The order of a listing\<close>

lemma sorted_wrt_insert_by:
  assumes total: "\<And>a b. \<not> cmp a b \<le> 0 \<Longrightarrow> cmp b a \<le> 0"
    and trans: "\<And>a b c. cmp a b \<le> 0 \<Longrightarrow> cmp b c \<le> 0 \<Longrightarrow> cmp a c \<le> (0::int)"
  shows "sorted_wrt (\<lambda>a b. cmp a b \<le> 0) xs \<Longrightarrow> sorted_wrt (\<lambda>a b. cmp a b \<le> 0) (insert_by cmp x xs)"
proof (induction xs)
  case Nil
  then show ?case by simp
next
  case (Cons y ys)
  show ?case
  proof (cases "cmp x y \<le> 0")
    case True
    with Cons.prems trans have "\<forall>z\<in>set (y # ys). cmp x z \<le> 0" by auto
    with True Cons.prems show ?thesis by simp
  next
    case False
    from total[OF False] have "cmp y x \<le> 0" .
    with False Cons show ?thesis by (auto simp: set_insert_by)
  qed
qed

lemma sorted_wrt_js_sort:
  assumes "\<And>a b. \<not> cmp a b \<le> 0 \<Longrightarrow> cmp b a \<le> 0"
    and "\<And>a b c. cmp a b \<le> 0 \<Longrightarrow> cmp b c \<le> 0 \<Longrightarrow> cmp a c \<le> (0::int)"
  shows "sorted_wrt (\<lambda>a b. cmp a b \<le> 0) (js_sort cmp xs)"
proof (induction xs)
  case Nil
  then show ?case by (simp add: js_sort_def)
next
  case (Cons x xs)
  have "js_sort cmp (x # xs) = insert_by cmp x (js_sort cmp xs)" by (simp add: js_sort_def)
  with Cons sorted_wrt_insert_by[of cmp, OF assms] show ?case by simp
qed

lemma filter_insert_by:
  assumes "\<And>a b. P a \<Longrightarrow> P b \<Longrightarrow> cmp a b \<le> 0"
  shows "filter P (insert_by cmp x xs) = (if P x then x # filter P xs else filter P xs)"
  using assms by (induction xs) auto

lemma filter_js_sort:
  assumes "\<And>a b. P a \<Longrightarrow> P b \<Longrightarrow> cmp a b \<le> 0"
  shows "filter P (js_sort cmp xs) = filter P xs"
proof (induction xs)
  case Nil
  then show ?case by (simp add: js_sort_def)
next
  case (Cons x xs)
  have "js_sort cmp (x # xs) = insert_by cmp x (js_sort cmp xs)" by (simp add: js_sort_def)
  with Cons filter_insert_by[of P cmp, OF assms] show ?case by simp
qed

lemma virtual_first_le:
  "virtual_first a b \<le> 0 \<longleftrightarrow>
     (is_virtual a \<and> \<not> is_virtual b) \<or> (is_virtual a = is_virtual b \<and> hc_position a \<le> hc_position b)"
  by (auto simp: virtual_first_def Let_def)

text \<open>
  C8 (as amended). The listing of a document is a rearrangement of its records in which no
  record that is not virtual stands before a virtual one; among the virtual records, as
  among the others, the positions ascend; and records of the same kind and position keep
  the order they have in the object.
\<close>

theorem C8_getFileComments_order:
  "mset (getFileComments s path) = mset (map snd (file_records s path)) \<and>
   (\<forall>i j. i < j \<and> j < length (getFileComments s path) \<longrightarrow>
      (is_virtual (getFileComments s path ! j) \<longrightarrow> is_virtual (getFileComments s path ! i)) \<and>
      (is_virtual (getFileComments s path ! i) = is_virtual (getFileComments s path ! j) \<longrightarrow>
         hc_position (getFileComments s path ! i) \<le> hc_position (getFileComments s path ! j))) \<and>
   (\<forall>v p. filter (\<lambda>h. is_virtual h = v \<and> hc_position h = p) (getFileComments s path) =
          filter (\<lambda>h. is_virtual h = v \<and> hc_position h = p) (map snd (file_records s path)))"
proof (intro conjI allI impI)
  show "mset (getFileComments s path) = mset (map snd (file_records s path))"
    by (simp add: getFileComments_def mset_js_sort)
next
  fix i j
  assume ij: "i < j \<and> j < length (getFileComments s path)"
  have "sorted_wrt (\<lambda>a b. virtual_first a b \<le> 0) (getFileComments s path)"
    unfolding getFileComments_def
    by (rule sorted_wrt_js_sort) (auto simp: virtual_first_le)
  with ij have le: "virtual_first (getFileComments s path ! i) (getFileComments s path ! j) \<le> 0"
    by (simp add: sorted_wrt_iff_nth_less)
  from le show "is_virtual (getFileComments s path ! i)" if "is_virtual (getFileComments s path ! j)"
    using that by (auto simp: virtual_first_le)
  from le show "hc_position (getFileComments s path ! i) \<le> hc_position (getFileComments s path ! j)"
    if "is_virtual (getFileComments s path ! i) = is_virtual (getFileComments s path ! j)"
    using that by (auto simp: virtual_first_le)
next
  fix v p
  show "filter (\<lambda>h. is_virtual h = v \<and> hc_position h = p) (getFileComments s path) =
          filter (\<lambda>h. is_virtual h = v \<and> hc_position h = p) (map snd (file_records s path))"
    unfolding getFileComments_def
    by (rule filter_js_sort) (auto simp: virtual_first_le)
qed

theorem C8_getFileComments_order_witness:
  "(0::nat) < 1 \<and> 1 < length (getFileComments sample_store ''a.md'') \<and>
   is_virtual (getFileComments sample_store ''a.md'' ! 0) =
     is_virtual (getFileComments sample_store ''a.md'' ! 1) \<and>
   hc_position (getFileComments sample_store ''a.md'' ! 0)
     \<le> hc_position (getFileComments sample_store ''a.md'' ! 1) \<and>
   mset (getFileComments sample_store ''a.md'') = mset (map snd (file_records sample_store ''a.md''))"
proof -
  have r: "getFileComments sample_store ''a.md'' =
      [sample_highlight ''v2'' 2 (Some True), sample_highlight ''v1'' 5 (Some True),
       sample_highlight ''n1'' 1 None]"
    by (simp add: sample_store_def store_defs)
  have len: "1 < length (getFileComments sample_store ''a.md'')"
    by (simp add: r)
  have v: "is_virtual (getFileComments sample_store ''a.md'' ! 0) =
     is_virtual (getFileComments sample_store ''a.md'' ! 1)"
    by (simp add: r is_virtual_def sample_highlight_def)
  from C8_getFileComments_order[of sample_store "''a.md''"] len v show ?thesis
    by simp
qed

text \<open>
  Virtual records are ordered by position like the others, not by insertion: \<^verbatim>\<open>v1\<close>
  (position 5) was added before \<^verbatim>\<open>v2\<close> (position 2) and is listed after it.
\<close>

theorem C8_order_counterexample:
  "map fst (file_records sample_store ''a.md'') = [''v1'', ''n1'', ''v2''] \<and>
   map is_virtual (map snd (file_records sample_store ''a.md'')) = [True, False, True] \<and>
   map hc_id (getFileComments sample_store ''a.md'') = [''v2'', ''v1'', ''n1'']"
  by (simp add: sample_store_def store_defs)

subsection \<open>The paragraph cache\<close>

lemma foldl_remove_cache:
  "foldl (\<lambda>s key. s\<lparr>commentCache := remove key (commentCache s)\<rparr>) s ks =
     s\<lparr>commentCache := filter (\<lambda>e. fst e \<notin> set ks) (commentCache s)\<rparr>"
proof (induction ks arbitrary: s)
  case Nil
  then show ?case by simp
next
  case (Cons k ks)
  have "filter (\<lambda>e. fst e \<notin> set ks) (remove k (commentCache s)) =
        filter (\<lambda>e. fst e \<notin> set (k # ks)) (commentCache s)"
    by (auto simp: remove_def intro: filter_cong)
  with Cons show ?case by simp
qed

lemma filter_oldest_keys:
  assumes "distinct (map fst c)"
  shows "filter (\<lambda>e. fst e \<notin> set (take n (map fst c))) c = drop n c"
proof -
  have c: "c = take n c @ drop n c" by simp
  have keys: "take n (map fst c) = map fst (take n c)" by (simp add: take_map)
  from assms have "distinct (map fst (take n c) @ map fst (drop n c))"
    by (metis c map_append)
  then have disj: "set (map fst (take n c)) \<inter> set (map fst (drop n c)) = {}"
    by simp
  have 1: "filter (\<lambda>e. fst e \<notin> set (map fst (take n c))) (take n c) = []"
    by (auto simp: filter_empty_conv)
  have 2: "filter (\<lambda>e. fst e \<notin> set (map fst (take n c))) (drop n c) = drop n c"
    using disj by (auto simp: filter_id_conv)
  have "filter (\<lambda>e. fst e \<notin> set (map fst (take n c))) (take n c @ drop n c) = drop n c"
    unfolding filter_append 1 2 by simp
  then show ?thesis by (simp add: keys)
qed

lemma commentCache_pruneCache:
  assumes "distinct (map fst (commentCache s))"
  shows "commentCache (pruneCache s) =
           drop (length (commentCache s) - maxCacheSize) (commentCache s)"
  using assms by (simp add: pruneCache_def Let_def foldl_remove_cache filter_oldest_keys)

lemma distinct_cache_paragraphs:
  "distinct (map fst (commentCache s)) \<Longrightarrow>
   distinct (map fst (commentCache (cache_paragraphs currentFile ids s)))"
  unfolding cache_paragraphs_def
  by (induction ids arbitrary: s) (simp_all add: distinct_put)

lemma loadVisibleComments_cache:
  assumes "distinct (map fst (commentCache s))"
  shows "commentCache (loadVisibleComments (Some currentFile) ids s) =
           drop (length (commentCache (cache_paragraphs currentFile ids s)) - maxCacheSize)
             (commentCache (cache_paragraphs currentFile ids s))"
  by (simp add: loadVisibleComments_def commentCache_pruneCache distinct_cache_paragraphs assms)

lemma cache_ok_loadVisibleComments:
  assumes "cache_ok s"
  shows "cache_ok (loadVisibleComments activeFile ids s)"
proof (cases activeFile)
  case None
  with assms show ?thesis by (simp add: loadVisibleComments_def)
next
  case (Some currentFile)
  from assms have d: "distinct (map fst (commentCache s))" by (simp add: cache_ok_def)
  show ?thesis
    unfolding Some cache_ok_def loadVisibleComments_cache[OF d]
    using distinct_cache_paragraphs[OF d, of currentFile ids]
    by (auto simp: drop_map[symmetric] intro: distinct_drop)
qed

lemma cache_ok_refresh_all: "cache_ok s \<Longrightarrow> cache_ok (refresh_all calls s)"
  unfolding refresh_all_def
  by (induction calls arbitrary: s) (simp_all add: cache_ok_loadVisibleComments)

text \<open>
  C7. From a store whose cache is within its capacity (a new store's is empty), after any
  sequence of calls of \<open>loadVisibleComments\<close> the cache has at most \<open>maxCacheSize = 100\<close>
  entries; and a further call with an active file leaves the cache that its ids produce
  without its oldest entries, as many as exceed the capacity.
\<close>

theorem C7_cache_bounded:
  assumes "length (commentCache s) \<le> maxCacheSize" and "distinct (map fst (commentCache s))"
  shows "length (commentCache (refresh_all calls s)) \<le> maxCacheSize \<and> maxCacheSize = 100 \<and>
         (\<forall>currentFile ids.
            commentCache (loadVisibleComments (Some currentFile) ids (refresh_all calls s)) =
              drop (length (commentCache (cache_paragraphs currentFile ids (refresh_all calls s)))
                      - maxCacheSize)
                (commentCache (cache_paragraphs currentFile ids (refresh_all calls s))))"
proof -
  from assms have "cache_ok s" by (simp add: cache_ok_def)
  then have ok: "cache_ok (refresh_all calls s)" by (rule cache_ok_refresh_all)
  then have "distinct (map fst (commentCache (refresh_all calls s)))" by (simp add: cache_ok_def)
  from loadVisibleComments_cache[OF this] ok show ?thesis
    by (simp add: cache_ok_def maxCacheSize_def)
qed

theorem C7_cache_bounded_witness:
  "length (commentCache (new_CommentStore [])) \<le> maxCacheSize \<and>
   distinct (map fst (commentCache (new_CommentStore []))) \<and>
   length (commentCache
     (refresh_all [(Some ''a.md'', map string_of_nat [0..<150]), (None, [''x''])]
        (new_CommentStore []))) \<le> 100"
proof -
  have a: "length (commentCache (new_CommentStore [])) \<le> maxCacheSize"
    and b: "distinct (map fst (commentCache (new_CommentStore [])))"
    by (simp_all add: new_CommentStore_def)
  from C7_cache_bounded[OF a b] a b show ?thesis by simp
qed

subsection \<open>The batch update\<close>

text \<open>
  C10. \<open>batchUpdateComments\<close> writes the index \<open>comments\<close> only: the listing of a document,
  its file comments, the comments of a paragraph and whether it has any are what they were,
  and so is what the next \<open>saveComments\<close> writes.
\<close>

theorem C10_batchUpdateComments_frame:
  "getFileComments (batchUpdateComments updates s) path = getFileComments s path \<and>
   getFileOnlyComments (batchUpdateComments updates s) path = getFileOnlyComments s path \<and>
   getCommentsByParagraphId (batchUpdateComments updates s) path paragraphId =
     getCommentsByParagraphId s path paragraphId \<and>
   hasParagraphComments (batchUpdateComments updates s) path paragraphId =
     hasParagraphComments s path paragraphId \<and>
   payload (batchUpdateComments updates s) = payload s \<and>
   disk (saveComments (batchUpdateComments updates s)) = disk (saveComments s) \<and>
   data (batchUpdateComments updates s) = data s \<and>
   fileCommentsData (batchUpdateComments updates s) = fileCommentsData s \<and>
   fileComments (batchUpdateComments updates s) = fileComments s \<and>
   commentCache (batchUpdateComments updates s) = commentCache s \<and>
   disk (batchUpdateComments updates s) = disk s"
  by (simp add: batchUpdateComments_def Let_def getFileComments_def getFileOnlyComments_def
      getCommentsByParagraphId_def hasParagraphComments_def file_records_def payload_def
      saveComments_def)

end
